theory Spec2Isabelle
  imports Main "HOL-Library.Char_ord" "HOL-Library.List_Lexorder"
begin

section \<open>Data model of autoload.cpp\<close>

text \<open>
  Wide strings are character lists; \<^verbatim>\<open>wcscmp\<close> is the lexicographic order on them.
  Heap nodes are addressed by natural numbers. The sentinel \<^verbatim>\<open>mouth\<close> is a member of the
  cache object and lives at address 0; every node made by \<^verbatim>\<open>new\<close> gets an address
  from the allocation counter \<^verbatim>\<open>fresh\<close>. A nullable pointer is an \<open>addr option\<close>.
\<close>

type_synonym wcstring = string
type_synonym addr = nat

definition mouth :: addr where
  "mouth = 0"

definition kAutoloadStalenessInterval :: int where
  "kAutoloadStalenessInterval = 1"

record file_access_attempt_t =
  mod_time :: int
  last_checked :: int
  accessible :: bool
  stale :: bool
  error :: int

record autoload_function_t =
  key :: wcstring
  access :: file_access_attempt_t
  is_loaded :: bool
  is_placeholder :: bool

text \<open>
  Calls that leave the object are recorded in a trace: a file probe by \<^verbatim>\<open>access_file\<close>,
  a call of the eviction hook \<^verbatim>\<open>node_was_evicted\<close>, a call of \<^verbatim>\<open>command_removed\<close>,
  a call of \<^verbatim>\<open>exec_subshell\<close> and a call of \<^verbatim>\<open>debug\<close>. What the script run by
  \<^verbatim>\<open>exec_subshell\<close> does is not modelled; a call of the manager that it makes is a
  later call on the state that is passed on. Locks and the main-thread assertions are
  left out: the calls of the model happen one after the other.
\<close>

datatype event =
    Probe wcstring
  | Evicted wcstring
  | CommandRemoved wcstring
  | ExecSubshell wcstring
  | Debug wcstring

text \<open>
  The cache object. The links \<^verbatim>\<open>next\<close> and \<^verbatim>\<open>prev\<close> of all nodes are two functions
  on addresses, \<^verbatim>\<open>node_set\<close> is the keyed index (a set of node pointers ordered by key,
  so a finite map from key to pointer), \<^verbatim>\<open>heap\<close> holds the live
  \<^verbatim>\<open>autoload_function_t\<close> objects.
\<close>

record lru_cache =
  max_node_count :: nat
  node_count :: nat
  nxt :: "addr \<Rightarrow> addr"
  prv :: "addr \<Rightarrow> addr"
  node_set :: "wcstring \<rightharpoonup> addr"
  heap :: "addr \<rightharpoonup> autoload_function_t"
  fresh :: addr

record builtin_script_t =
  name :: wcstring
  def :: wcstring

record autoload_t = lru_cache +
  env_var_name :: wcstring
  builtin_scripts :: "builtin_script_t list"
  path :: wcstring
  is_loading_set :: "wcstring set"

section \<open>The bounded recency cache\<close>

text \<open>
  The constructor links the sentinel to itself. The links of addresses that hold no node
  are never read on a well-formed cache; they are given the value \<^verbatim>\<open>&mouth\<close> here.
\<close>

definition lru_cache_impl_t :: "nat \<Rightarrow> lru_cache" where
  "lru_cache_impl_t sz =
     \<lparr>max_node_count = sz, node_count = 0,
      nxt = (\<lambda>_. mouth), prv = (\<lambda>_. mouth),
      node_set = Map.empty, heap = Map.empty, fresh = Suc mouth\<rparr>"

text \<open>
  \<^verbatim>\<open>autoload_t::node_was_evicted\<close>: the hook reads the node, calls
  \<^verbatim>\<open>command_removed\<close> under the test written in the source, and deletes the node.
  Reading a node that is not live is undefined and gives \<open>None\<close>.
\<close>

definition node_was_evicted ::
  "'a lru_cache_scheme \<Rightarrow> addr \<Rightarrow> ('a lru_cache_scheme \<times> event list) option" where
  "node_was_evicted c node =
     (case heap c node of
        None \<Rightarrow> None
      | Some f \<Rightarrow>
          Some (c\<lparr>heap := (heap c)(node := None)\<rparr>,
                Evicted (key f) #
                (if \<not> is_loaded f then [CommandRemoved (key f)] else [])))"

text \<open>
  \<^verbatim>\<open>evict_node(lru_node_t *)\<close>. A failed assertion is \<open>None\<close>. The counter is a
  \<^verbatim>\<open>size_t\<close>: decrementing zero wraps around.
\<close>

definition evict_node ::
  "'a lru_cache_scheme \<Rightarrow> addr \<Rightarrow> ('a lru_cache_scheme \<times> event list) option" where
  "evict_node c condemned_node =
     (if condemned_node = mouth then None
      else case heap c condemned_node of
        None \<Rightarrow> None
      | Some f \<Rightarrow>
         (let c1 = c\<lparr>nxt := (nxt c)(prv c condemned_node := nxt c condemned_node)\<rparr>;
              c2 = c1\<lparr>prv := (prv c1)(nxt c1 condemned_node := prv c1 condemned_node)\<rparr>;
              c3 = c2\<lparr>node_set := (node_set c2)(key f := None)\<rparr>;
              c4 = c3\<lparr>node_count :=
                        (if node_count c3 = 0 then 2 ^ 64 - 1 else node_count c3 - 1)\<rparr>
          in node_was_evicted c4 condemned_node))"

definition evict_last_node ::
  "'a lru_cache_scheme \<Rightarrow> ('a lru_cache_scheme \<times> event list) option" where
  "evict_last_node c = evict_node c (prv c mouth)"

text \<open>\<^verbatim>\<open>evict_node(const wcstring &)\<close>: eviction by key.\<close>

definition evict_node_key ::
  "'a lru_cache_scheme \<Rightarrow> wcstring \<Rightarrow> (bool \<times> 'a lru_cache_scheme \<times> event list) option" where
  "evict_node_key c k =
     (case node_set c k of
        None \<Rightarrow> Some (False, c, [])
      | Some node \<Rightarrow>
         (case evict_node c node of
            None \<Rightarrow> None
          | Some (c', ev) \<Rightarrow> Some (True, c', ev)))"

definition promote_node :: "'a lru_cache_scheme \<Rightarrow> addr \<Rightarrow> 'a lru_cache_scheme option" where
  "promote_node c node =
     (if node = mouth then None
      else
        (let c1 = c\<lparr>nxt := (nxt c)(prv c node := nxt c node)\<rparr>;
             c2 = c1\<lparr>prv := (prv c1)(nxt c1 node := prv c1 node)\<rparr>;
             c3 = c2\<lparr>nxt := (nxt c2)(node := nxt c2 mouth)\<rparr>;
             c4 = c3\<lparr>prv := (prv c3)(nxt c3 node := node)\<rparr>;
             c5 = c4\<lparr>prv := (prv c4)(node := mouth)\<rparr>;
             c6 = c5\<lparr>nxt := (nxt c5)(mouth := node)\<rparr>
         in Some c6))"

definition get_node ::
  "'a lru_cache_scheme \<Rightarrow> wcstring \<Rightarrow> (addr option \<times> 'a lru_cache_scheme) option" where
  "get_node c k =
     (case node_set c k of
        None \<Rightarrow> Some (None, c)
      | Some node \<Rightarrow>
         (case promote_node c node of
            None \<Rightarrow> None
          | Some c' \<Rightarrow> Some (Some node, c')))"

text \<open>
  The loop \<open>while (node_count > limit) evict_last_node();\<close> occurs with the limit
  \<^verbatim>\<open>max_node_count\<close> in \<^verbatim>\<open>add_node\<close> and \<^verbatim>\<open>add_node_without_eviction\<close> and
  with the limit 0 in \<^verbatim>\<open>evict_all_nodes\<close>.
\<close>

function evict_while_above ::
  "nat \<Rightarrow> 'a lru_cache_scheme \<Rightarrow> ('a lru_cache_scheme \<times> event list) option" where
  "evict_while_above limit c =
     (if node_count c > limit then
        (case evict_last_node c of
           None \<Rightarrow> None
         | Some (c', ev) \<Rightarrow>
            (case evict_while_above limit c' of
               None \<Rightarrow> None
             | Some (c'', ev') \<Rightarrow> Some (c'', ev @ ev')))
      else Some (c, []))"
  by pat_completeness auto
termination
  by (relation "measure (\<lambda>(limit, c). node_count c)")
     (auto simp: evict_last_node_def evict_node_def node_was_evicted_def Let_def
           split: if_splits option.splits)

definition evict_all_nodes ::
  "'a lru_cache_scheme \<Rightarrow> ('a lru_cache_scheme \<times> event list) option" where
  "evict_all_nodes c = evict_while_above 0 c"

text \<open>
  \<^verbatim>\<open>add_node_without_eviction\<close>, with the eviction loop that the source has at its end.
  The counter counts live heap nodes, so its increment does not reach \<open>2 ^ 64\<close>.
\<close>

definition add_node_without_eviction ::
  "'a lru_cache_scheme \<Rightarrow> addr \<Rightarrow> (bool \<times> 'a lru_cache_scheme \<times> event list) option" where
  "add_node_without_eviction c node =
     (if node = mouth then None
      else case heap c node of
        None \<Rightarrow> None
      | Some f \<Rightarrow>
         if node_set c (key f) \<noteq> None then Some (False, c, [])
         else
          (let c1 = c\<lparr>node_set := (node_set c)(key f \<mapsto> node)\<rparr>;
               c2 = c1\<lparr>nxt := (nxt c1)(node := nxt c1 mouth)\<rparr>;
               c3 = c2\<lparr>prv := (prv c2)(nxt c2 node := node)\<rparr>;
               c4 = c3\<lparr>prv := (prv c3)(node := mouth)\<rparr>;
               c5 = c4\<lparr>nxt := (nxt c4)(mouth := node)\<rparr>;
               c6 = c5\<lparr>node_count := node_count c5 + 1\<rparr>
           in case evict_while_above (max_node_count c6) c6 of
                None \<Rightarrow> None
              | Some (c7, ev) \<Rightarrow> Some (True, c7, ev)))"

definition add_node ::
  "'a lru_cache_scheme \<Rightarrow> addr \<Rightarrow> (bool \<times> 'a lru_cache_scheme \<times> event list) option" where
  "add_node c node =
     (case add_node_without_eviction c node of
        None \<Rightarrow> None
      | Some (ok, c1, ev) \<Rightarrow>
         if \<not> ok then Some (False, c1, ev)
         else
          (case evict_while_above (max_node_count c1) c1 of
             None \<Rightarrow> None
           | Some (c2, ev') \<Rightarrow> Some (True, c2, ev @ ev')))"


section \<open>Well-formed cache states\<close>

text \<open>
  \<open>path_via f a xs b\<close>: following the link \<open>f\<close> from \<open>a\<close> visits the nodes \<open>xs\<close> in
  order and then reaches \<open>b\<close>.
\<close>

fun path_via :: "(addr \<Rightarrow> addr) \<Rightarrow> addr \<Rightarrow> addr list \<Rightarrow> addr \<Rightarrow> bool" where
  "path_via f a [] b = (f a = b)"
| "path_via f a (x # xs) b = (f a = x \<and> path_via f x xs b)"

text \<open>
  \<open>lru_rep c xs\<close>: the cache \<open>c\<close> is well formed and its recency list, from the node after
  the sentinel (most recently used) to the node before it (least recently used), is
  \<open>xs\<close>. The list is circular in both directions through the sentinel, the index
  holds exactly the nodes of the list under their keys, the counter is the length of the
  list, and every live node is below the allocation counter.
\<close>

definition lru_rep :: "'a lru_cache_scheme \<Rightarrow> addr list \<Rightarrow> bool" where
  "lru_rep c xs \<longleftrightarrow>
     path_via (nxt c) mouth xs mouth \<and> path_via (prv c) mouth (rev xs) mouth \<and>
     distinct xs \<and> mouth \<notin> set xs \<and> node_count c = length xs \<and>
     (\<forall>a \<in> set xs. \<exists>f. heap c a = Some f \<and> node_set c (key f) = Some a) \<and>
     (\<forall>k a. node_set c k = Some a \<longrightarrow> a \<in> set xs \<and> (\<exists>f. heap c a = Some f \<and> key f = k)) \<and>
     (\<forall>a. heap c a \<noteq> None \<longrightarrow> a < fresh c) \<and> mouth < fresh c"


text \<open>What one call of the eviction hook on the node \<open>f\<close> adds to the trace.\<close>

definition eviction_trace :: "autoload_function_t \<Rightarrow> event list" where
  "eviction_trace f =
     Evicted (key f) # (if \<not> is_loaded f then [CommandRemoved (key f)] else [])"

section \<open>The autoload manager\<close>

text \<open>
  What the manager reads from outside the object: the file system (\<^verbatim>\<open>wstat\<close> gives an
  error number or the modification time, \<^verbatim>\<open>waccess\<close> gives an error number when it fails),
  the clock \<^verbatim>\<open>time(NULL)\<close>, which stands still during one call, the string functions
  \<^verbatim>\<open>escape_string\<close> and \<^verbatim>\<open>tokenize_variable_array2\<close>, and the test of the macro
  \<^verbatim>\<open>CHECK_BLOCK\<close>, which returns its argument at once when signals are blocked.
\<close>

record world =
  wstat :: "wcstring \<Rightarrow> int + int"
  waccess :: "wcstring \<Rightarrow> int option"
  now :: int
  escape_string :: "wcstring \<Rightarrow> wcstring"
  tokenize_variable_array2 :: "wcstring \<Rightarrow> wcstring list"
  signal_is_blocked :: bool

definition access_file :: "world \<Rightarrow> wcstring \<Rightarrow> file_access_attempt_t" where
  "access_file w p =
     (case wstat w p of
        Inl errno \<Rightarrow>
          \<lparr>mod_time = 0, last_checked = now w, accessible = False, stale = False, error = errno\<rparr>
      | Inr st_mtime \<Rightarrow>
         (case waccess w p of
            Some errno \<Rightarrow>
              \<lparr>mod_time = st_mtime, last_checked = now w, accessible = False, stale = False,
               error = errno\<rparr>
          | None \<Rightarrow>
              \<lparr>mod_time = st_mtime, last_checked = now w, accessible = True, stale = False,
               error = 0\<rparr>))"

text \<open>
  The constructor of \<^verbatim>\<open>autoload_function_t\<close> is declared outside this file; it clears the
  access record and both flags.
\<close>

definition autoload_function_ctor :: "wcstring \<Rightarrow> autoload_function_t" where
  "autoload_function_ctor k =
     \<lparr>key = k,
      access = \<lparr>mod_time = 0, last_checked = 0, accessible = False, stale = False, error = 0\<rparr>,
      is_loaded = False, is_placeholder = False\<rparr>"

text \<open>\<^verbatim>\<open>new autoload_function_t(cmd)\<close>: a live node at a fresh address.\<close>

definition new_autoload_function ::
  "'a lru_cache_scheme \<Rightarrow> wcstring \<Rightarrow> addr \<times> 'a lru_cache_scheme" where
  "new_autoload_function s cmd =
     (fresh s, s\<lparr>heap := (heap s)(fresh s \<mapsto> autoload_function_ctor cmd),
                 fresh := Suc (fresh s)\<rparr>)"

text \<open>A write through a node pointer; writing to a deleted node is undefined.\<close>

definition update_node ::
  "'a lru_cache_scheme \<Rightarrow> addr \<Rightarrow> (autoload_function_t \<Rightarrow> autoload_function_t) \<Rightarrow>
   'a lru_cache_scheme option" where
  "update_node s a g =
     (case heap s a of None \<Rightarrow> None | Some f \<Rightarrow> Some (s\<lparr>heap := (heap s)(a \<mapsto> g f)\<rparr>))"

text \<open>Reading through a nullable node pointer.\<close>

definition deref ::
  "'a lru_cache_scheme \<Rightarrow> addr option \<Rightarrow> autoload_function_t option option" where
  "deref s func =
     (case func of
        None \<Rightarrow> Some None
      | Some a \<Rightarrow> (case heap s a of None \<Rightarrow> None | Some f \<Rightarrow> Some (Some f)))"

subsection \<open>The builtin table\<close>

definition wcscmp :: "wcstring \<Rightarrow> wcstring \<Rightarrow> int" where
  "wcscmp a b = (if a < b then - 1 else if a = b then 0 else 1)"

definition script_name_precedes_script_name :: "builtin_script_t \<Rightarrow> builtin_script_t \<Rightarrow> bool" where
  "script_name_precedes_script_name script1 script2 \<longleftrightarrow>
     wcscmp (name script1) (name script2) < 0"

text \<open>
  \<^verbatim>\<open>std::lower_bound\<close> on the range of \<open>len\<close> elements that starts at index \<open>first\<close>:
  the binary search of the standard library.
\<close>

function lower_bound ::
  "builtin_script_t list \<Rightarrow> builtin_script_t \<Rightarrow> nat \<Rightarrow> nat \<Rightarrow> nat" where
  "lower_bound tbl v first len =
     (if 0 < len then
        (let half = len div 2; middle = first + half in
         if script_name_precedes_script_name (tbl ! middle) v
         then lower_bound tbl v (middle + 1) (len - half - 1)
         else lower_bound tbl v first half)
      else first)"
  by pat_completeness auto
termination
  by (relation "measure (\<lambda>(tbl, v, first, len). len)") auto

definition matching_builtin_script ::
  "builtin_script_t list \<Rightarrow> wcstring \<Rightarrow> builtin_script_t option" where
  "matching_builtin_script tbl cmd =
     (if 0 < length tbl then
        (let test_script = \<lparr>name = cmd, def = []\<rparr>;
             array_end = length tbl;
             found = lower_bound tbl test_script 0 (length tbl)
         in if found \<noteq> array_end \<and> wcscmp (name (tbl ! found)) (name test_script) = 0
            then Some (tbl ! found) else None)
      else None)"

subsection \<open>Resolution\<close>

text \<open>The test of lines 296 to 309: may the cached function be used?\<close>

definition use_cached :: "world \<Rightarrow> bool \<Rightarrow> bool \<Rightarrow> autoload_function_t option \<Rightarrow> bool" where
  "use_cached w really_load reload func =
     (let allow_stale_functions = \<not> reload in
      case func of
        None \<Rightarrow> False
      | Some f \<Rightarrow>
          if \<not> allow_stale_functions \<and>
             now w - last_checked (access f) > kAutoloadStalenessInterval then False
          else if really_load \<and> \<not> is_loaded f then False
          else True)"

definition need_to_load_function ::
  "bool \<Rightarrow> autoload_function_t option \<Rightarrow> file_access_attempt_t \<Rightarrow> bool" where
  "need_to_load_function really_load func acc \<longleftrightarrow>
     really_load \<and>
     (case func of
        None \<Rightarrow> True
      | Some f \<Rightarrow> mod_time (access f) = mod_time acc \<or> \<not> is_loaded f)"

text \<open>
  Lines 360 to 375, run when \<^verbatim>\<open>need_to_load_function\<close> holds: the script source is made,
  and a loaded function is unregistered and loses its placeholder flag. The result is the
  state, the trace and the script source.
\<close>

definition prepare_reload ::
  "world \<Rightarrow> autoload_t \<Rightarrow> wcstring \<Rightarrow> addr option \<Rightarrow> wcstring \<Rightarrow>
   (autoload_t \<times> event list \<times> wcstring) option" where
  "prepare_reload w s cmd func p =
     (let esc = escape_string w p; script_source = ''. '' @ esc in
      case func of
        None \<Rightarrow> Some (s, [], script_source)
      | Some a \<Rightarrow>
         (case heap s a of
            None \<Rightarrow> None
          | Some f \<Rightarrow>
              if is_loaded f then
                (case update_node s a (\<lambda>f. f\<lparr>is_placeholder := False\<rparr>) of
                   None \<Rightarrow> None
                 | Some s' \<Rightarrow> Some (s', [CommandRemoved cmd], script_source))
              else Some (s, [], script_source)))"

text \<open>
  Lines 379 to 384 and 408 to 414: a new function object is put into the cache, with
  \<^verbatim>\<open>add_node\<close> when really loading and with \<^verbatim>\<open>add_node_without_eviction\<close> otherwise.
  \<open>init\<close> is what the caller writes to the object before it is added.
\<close>

definition create_function ::
  "autoload_t \<Rightarrow> wcstring \<Rightarrow> bool \<Rightarrow> (autoload_function_t \<Rightarrow> autoload_function_t) \<Rightarrow>
   (addr \<times> autoload_t \<times> event list) option" where
  "create_function s cmd really_load init =
     (let (a, s1) = new_autoload_function s cmd in
      case update_node s1 a init of
        None \<Rightarrow> None
      | Some s2 \<Rightarrow>
         (case (if really_load then add_node s2 a else add_node_without_eviction s2 a) of
            None \<Rightarrow> None
          | Some (ok, s3, ev) \<Rightarrow> Some (a, s3, ev)))"

text \<open>
  Lines 350 to 393, for the first accessible candidate \<open>p\<close> with the probe result \<open>acc\<close>.
  The result is the state, the trace, the script source if one was made, and the flag
  \<^verbatim>\<open>reloaded\<close>.
\<close>

definition found_file_block ::
  "world \<Rightarrow> autoload_t \<Rightarrow> wcstring \<Rightarrow> bool \<Rightarrow> wcstring \<Rightarrow> file_access_attempt_t \<Rightarrow>
   (autoload_t \<times> event list \<times> wcstring option \<times> bool) option" where
  "found_file_block w s cmd really_load p acc =
     (case get_node s cmd of
        None \<Rightarrow> None
      | Some (func, s1) \<Rightarrow>
         (case deref s1 func of
            None \<Rightarrow> None
          | Some fo \<Rightarrow>
             (let need = need_to_load_function really_load fo acc in
              case (if need then
                      (case prepare_reload w s1 cmd func p of
                         None \<Rightarrow> None
                       | Some (s2, ev, src) \<Rightarrow> Some (s2, ev, Some src))
                    else Some (s1, [], None)) of
                None \<Rightarrow> None
              | Some (s2, ev1, src) \<Rightarrow>
                 (case (case func of
                          Some a \<Rightarrow> Some (a, s2, [])
                        | None \<Rightarrow> create_function s2 cmd really_load (\<lambda>f. f)) of
                    None \<Rightarrow> None
                  | Some (a, s3, ev2) \<Rightarrow>
                     (case (if need then update_node s3 a (\<lambda>f. f\<lparr>is_loaded := True\<rparr>)
                            else Some s3) of
                        None \<Rightarrow> None
                      | Some s4 \<Rightarrow>
                         (case update_node s4 a (\<lambda>f. f\<lparr>access := acc\<rparr>) of
                            None \<Rightarrow> None
                          | Some s5 \<Rightarrow> Some (s5, ev1 @ ev2, src, need)))))))"

text \<open>
  The loop of lines 344 to 395 over the path list. The result is the state, the trace,
  \<^verbatim>\<open>found_file\<close>, the script source if one was made, and \<^verbatim>\<open>reloaded\<close>.
\<close>

definition candidate_path :: "wcstring \<Rightarrow> wcstring \<Rightarrow> wcstring" where
  "candidate_path next cmd = next @ ''/'' @ cmd @ ''.fish''"

fun search_path ::
  "world \<Rightarrow> autoload_t \<Rightarrow> wcstring \<Rightarrow> bool \<Rightarrow> wcstring list \<Rightarrow>
   (autoload_t \<times> event list \<times> bool \<times> wcstring option \<times> bool) option" where
  "search_path w s cmd really_load [] = Some (s, [], False, None, False)"
| "search_path w s cmd really_load (next # rest) =
     (let p = candidate_path next cmd; acc = access_file w p in
      if accessible acc then
        (case found_file_block w s cmd really_load p acc of
           None \<Rightarrow> None
         | Some (s', ev, src, reloaded) \<Rightarrow> Some (s', Probe p # ev, True, src, reloaded))
      else
        (case search_path w s cmd really_load rest of
           None \<Rightarrow> None
         | Some (s', ev, found_file, src, reloaded) \<Rightarrow>
             Some (s', Probe p # ev, found_file, src, reloaded)))"

text \<open>Lines 402 to 417: the placeholder.\<close>

definition placeholder_block ::
  "world \<Rightarrow> autoload_t \<Rightarrow> wcstring \<Rightarrow> bool \<Rightarrow> (autoload_t \<times> event list) option" where
  "placeholder_block w s cmd really_load =
     (case get_node s cmd of
        None \<Rightarrow> None
      | Some (func, s1) \<Rightarrow>
         (case (case func of
                  Some a \<Rightarrow> Some (a, s1, [])
                | None \<Rightarrow>
                    create_function s1 cmd really_load (\<lambda>f. f\<lparr>is_placeholder := True\<rparr>)) of
            None \<Rightarrow> None
          | Some (a, s2, ev) \<Rightarrow>
             (case update_node s2 a
                     (\<lambda>f. f\<lparr>access := (access f)\<lparr>last_checked := now w\<rparr>\<rparr>) of
                None \<Rightarrow> None
              | Some s3 \<Rightarrow> Some (s3, ev))))"

text \<open>Lines 420 to 436: the script is run when really loading, and the result is chosen.\<close>

definition run_and_return ::
  "bool \<Rightarrow> autoload_t \<Rightarrow> event list \<Rightarrow> bool \<Rightarrow> wcstring option \<Rightarrow> bool \<Rightarrow>
   (bool \<times> autoload_t \<times> event list) option" where
  "run_and_return really_load s ev found_file script_source reloaded =
     Some (if really_load then reloaded else found_file \<or> script_source \<noteq> None,
           s,
           ev @ (case script_source of
                   Some src \<Rightarrow> if really_load then [ExecSubshell src] else []
                 | None \<Rightarrow> []))"

definition locate_file_and_maybe_load_it ::
  "world \<Rightarrow> autoload_t \<Rightarrow> wcstring \<Rightarrow> bool \<Rightarrow> bool \<Rightarrow> wcstring list \<Rightarrow>
   (bool \<times> autoload_t \<times> event list) option" where
  "locate_file_and_maybe_load_it w s cmd really_load reload path_list =
     (case get_node s cmd of
        None \<Rightarrow> None
      | Some (func, s1) \<Rightarrow>
         (case deref s1 func of
            None \<Rightarrow> None
          | Some fo \<Rightarrow>
             if use_cached w really_load reload fo
             then (case fo of None \<Rightarrow> None | Some f \<Rightarrow> Some (accessible (access f), s1, []))
             else
              (case matching_builtin_script (builtin_scripts s1) cmd of
                 Some b \<Rightarrow> run_and_return really_load s1 [] False (Some (def b)) False
               | None \<Rightarrow>
                  (case search_path w s1 cmd really_load path_list of
                     None \<Rightarrow> None
                   | Some (s2, ev, found_file, src, reloaded) \<Rightarrow>
                       if \<not> found_file \<and> src = None then
                         (case placeholder_block w s2 cmd really_load of
                            None \<Rightarrow> None
                          | Some (s3, ev') \<Rightarrow>
                              run_and_return really_load s3 (ev @ ev') found_file src reloaded)
                       else run_and_return really_load s2 ev found_file src reloaded))))"

subsection \<open>The public operations\<close>

text \<open>
  The constructor. The capacity of the cache is the default argument of the base class
  constructor, which is declared outside this file; it is the parameter \<open>sz\<close> here.
\<close>

definition autoload_ctor :: "nat \<Rightarrow> wcstring \<Rightarrow> builtin_script_t list \<Rightarrow> autoload_t" where
  "autoload_ctor sz env_var_name_var scripts =
     lru_cache.extend (lru_cache_impl_t sz)
       (autoload_t.fields env_var_name_var scripts [] {})"

definition unload :: "autoload_t \<Rightarrow> wcstring \<Rightarrow> (bool \<times> autoload_t \<times> event list) option" where
  "unload s cmd = evict_node_key s cmd"

definition unload_all :: "autoload_t \<Rightarrow> (autoload_t \<times> event list) option" where
  "unload_all s = evict_all_nodes s"

text \<open>
  \<^verbatim>\<open>load\<close>; \<open>path_var\<close> is what \<^verbatim>\<open>env_get_string\<close> gives for the search variable.
\<close>

definition load ::
  "world \<Rightarrow> autoload_t \<Rightarrow> wcstring \<Rightarrow> wcstring \<Rightarrow> bool \<Rightarrow>
   (int \<times> autoload_t \<times> event list) option" where
  "load w s path_var cmd reload =
     (if signal_is_blocked w then Some (0, s, [])
      else if path_var = [] then Some (0, s, [])
      else
        (case (if path_var \<noteq> path s
               then evict_all_nodes (s\<lparr>path := path_var\<rparr>) else Some (s, [])) of
           None \<Rightarrow> None
         | Some (s1, ev1) \<Rightarrow>
            if cmd \<in> is_loading_set s1 then
              Some (1, s1, ev1 @ [Debug cmd])
            else
              (let s2 = s1\<lparr>is_loading_set := insert cmd (is_loading_set s1)\<rparr>;
                   path_list = tokenize_variable_array2 w path_var in
               case locate_file_and_maybe_load_it w s2 cmd True reload path_list of
                 None \<Rightarrow> None
               | Some (res, s3, ev2) \<Rightarrow>
                   if cmd \<notin> is_loading_set s3 then None
                   else Some (if res then 1 else 0,
                              s3\<lparr>is_loading_set := is_loading_set s3 - {cmd}\<rparr>,
                              ev1 @ ev2))))"

text \<open>
  \<^verbatim>\<open>can_load\<close>; \<open>path_var_ptr\<close> is what \<^verbatim>\<open>vars.get\<close> gives for the search variable.
\<close>

definition can_load ::
  "world \<Rightarrow> autoload_t \<Rightarrow> wcstring \<Rightarrow> wcstring option \<Rightarrow>
   (bool \<times> autoload_t \<times> event list) option" where
  "can_load w s cmd path_var_ptr =
     (case path_var_ptr of
        None \<Rightarrow> Some (False, s, [])
      | Some path_var \<Rightarrow>
          if path_var = [] then Some (False, s, [])
          else locate_file_and_maybe_load_it w s cmd False False
                 (tokenize_variable_array2 w path_var))"

section \<open>Clients of the cache and observations\<close>

text \<open>
  A client performs public operations of the cache one after the other. For an insertion
  it makes the node with \<^verbatim>\<open>new\<close> first, as the autoload manager does.
\<close>

datatype cache_op =
    Add wcstring
  | AddWithoutEviction wcstring
  | Get wcstring
  | EvictKey wcstring
  | EvictAll

fun cache_step ::
  "'a lru_cache_scheme \<Rightarrow> cache_op \<Rightarrow> ('a lru_cache_scheme \<times> event list) option" where
  "cache_step c (Add k) =
     (let (a, c1) = new_autoload_function c k in
      case add_node c1 a of None \<Rightarrow> None | Some (ok, c2, ev) \<Rightarrow> Some (c2, ev))"
| "cache_step c (AddWithoutEviction k) =
     (let (a, c1) = new_autoload_function c k in
      case add_node_without_eviction c1 a of
        None \<Rightarrow> None | Some (ok, c2, ev) \<Rightarrow> Some (c2, ev))"
| "cache_step c (Get k) =
     (case get_node c k of None \<Rightarrow> None | Some (r, c1) \<Rightarrow> Some (c1, []))"
| "cache_step c (EvictKey k) =
     (case evict_node_key c k of None \<Rightarrow> None | Some (r, c1, ev) \<Rightarrow> Some (c1, ev))"
| "cache_step c EvictAll = evict_all_nodes c"

fun run_ops ::
  "'a lru_cache_scheme \<Rightarrow> cache_op list \<Rightarrow> ('a lru_cache_scheme \<times> event list) option" where
  "run_ops c [] = Some (c, [])"
| "run_ops c (x # ops) =
     (case cache_step c x of
        None \<Rightarrow> None
      | Some (c1, ev) \<Rightarrow>
         (case run_ops c1 ops of
            None \<Rightarrow> None
          | Some (c2, ev') \<Rightarrow> Some (c2, ev @ ev')))"

text \<open>The recency list read off the links: \<open>node_count\<close> steps from the sentinel.\<close>

fun walk :: "(addr \<Rightarrow> addr) \<Rightarrow> addr \<Rightarrow> nat \<Rightarrow> addr list" where
  "walk f a 0 = []"
| "walk f a (Suc n) = f a # walk f (f a) n"

definition key_at :: "'a lru_cache_scheme \<Rightarrow> addr \<Rightarrow> wcstring" where
  "key_at c a = (case heap c a of Some f \<Rightarrow> key f | None \<Rightarrow> [])"

definition lru_nodes :: "'a lru_cache_scheme \<Rightarrow> addr list" where
  "lru_nodes c = walk (nxt c) mouth (node_count c)"

definition lru_keys :: "'a lru_cache_scheme \<Rightarrow> wcstring list" where
  "lru_keys c = map (key_at c) (lru_nodes c)"

text \<open>The keys for which the eviction hook was called, in the order of the calls.\<close>

fun evicted_keys :: "event list \<Rightarrow> wcstring list" where
  "evicted_keys [] = []"
| "evicted_keys (Evicted k # ev) = k # evicted_keys ev"
| "evicted_keys (e # ev) = evicted_keys ev"

text \<open>The keys with which \<^verbatim>\<open>command_removed\<close> was called.\<close>

fun removed_commands :: "event list \<Rightarrow> wcstring list" where
  "removed_commands [] = []"
| "removed_commands (CommandRemoved k # ev) = k # removed_commands ev"
| "removed_commands (e # ev) = removed_commands ev"

text \<open>The paths that were probed and the scripts that were run.\<close>

fun probes :: "event list \<Rightarrow> wcstring list" where
  "probes [] = []"
| "probes (Probe p # ev) = p # probes ev"
| "probes (e # ev) = probes ev"

fun executed :: "event list \<Rightarrow> wcstring list" where
  "executed [] = []"
| "executed (ExecSubshell src # ev) = src # executed ev"
| "executed (e # ev) = executed ev"

text \<open>
  What the operations do to the list of keys in recency order, most recent first, and
  which keys they evict: the effect of the code on a cache of capacity \<open>n\<close>.
\<close>

fun abs_step :: "nat \<Rightarrow> wcstring list \<Rightarrow> cache_op \<Rightarrow> wcstring list \<times> wcstring list" where
  "abs_step n ks (Add k) =
     (if k \<in> set ks then (ks, []) else (take n (k # ks), rev (drop n (k # ks))))"
| "abs_step n ks (AddWithoutEviction k) =
     (if k \<in> set ks then (ks, []) else (take n (k # ks), rev (drop n (k # ks))))"
| "abs_step n ks (Get k) = (if k \<in> set ks then k # remove1 k ks else ks, [])"
| "abs_step n ks (EvictKey k) = (remove1 k ks, if k \<in> set ks then [k] else [])"
| "abs_step n ks EvictAll = ([], rev ks)"

fun abs_run :: "nat \<Rightarrow> wcstring list \<Rightarrow> cache_op list \<Rightarrow> wcstring list \<times> wcstring list" where
  "abs_run n ks [] = (ks, [])"
| "abs_run n ks (x # ops) =
     (let (ks1, ev) = abs_step n ks x; (ks2, ev') = abs_run n ks1 ops in (ks2, ev @ ev'))"

text \<open>
  Strict least-recently-used replacement as the specification words it, for insertions
  and lookups: a touched key goes to the front, and while there are more than \<open>n\<close> keys
  the one at the back, the least recently touched, is evicted.
\<close>

datatype use_op = Insert wcstring | Lookup wcstring

fun as_op :: "use_op \<Rightarrow> cache_op" where
  "as_op (Insert k) = Add k"
| "as_op (Lookup k) = Get k"

function evict_lru :: "nat \<Rightarrow> wcstring list \<Rightarrow> wcstring list \<times> wcstring list" where
  "evict_lru n ks =
     (if n < length ks then
        (let (ks', ev) = evict_lru n (butlast ks) in (ks', last ks # ev))
      else (ks, []))"
  by pat_completeness auto
termination
  by (relation "measure (\<lambda>(n, ks). length ks)") auto

fun lru_spec :: "nat \<Rightarrow> wcstring list \<Rightarrow> use_op \<Rightarrow> wcstring list \<times> wcstring list" where
  "lru_spec n ks (Insert k) = (if k \<in> set ks then (ks, []) else evict_lru n (k # ks))"
| "lru_spec n ks (Lookup k) = (if k \<in> set ks then (k # remove1 k ks, []) else (ks, []))"

fun lru_spec_run :: "nat \<Rightarrow> wcstring list \<Rightarrow> use_op list \<Rightarrow> wcstring list \<times> wcstring list" where
  "lru_spec_run n ks [] = (ks, [])"
| "lru_spec_run n ks (u # us) =
     (let (ks1, ev) = lru_spec n ks u; (ks2, ev') = lru_spec_run n ks1 us in (ks2, ev @ ev'))"

text \<open>Projections of the result of an operation.\<close>

definition result_of :: "('r \<times> 's \<times> event list) option \<Rightarrow> 'r option" where
  "result_of x = map_option fst x"

definition state_of :: "('r \<times> 's \<times> event list) option \<Rightarrow> 's option" where
  "state_of x = map_option (\<lambda>y. fst (snd y)) x"

definition trace_of :: "('r \<times> 's \<times> event list) option \<Rightarrow> event list option" where
  "trace_of x = map_option (\<lambda>y. snd (snd y)) x"

text \<open>The cached function object for a key, if the index has one.\<close>

definition cached_function :: "'a lru_cache_scheme \<Rightarrow> wcstring \<Rightarrow> autoload_function_t option" where
  "cached_function s cmd = (case node_set s cmd of None \<Rightarrow> None | Some a \<Rightarrow> heap s a)"

text \<open>A world for examples: one readable file, no blocked signals, a one-element path list.\<close>

definition demo_world :: world where
  "demo_world =
     \<lparr>wstat = (\<lambda>p. if p = ''/d/foo.fish'' then Inr 100 else Inl 2),
      waccess = (\<lambda>p. None), now = 1000, escape_string = (\<lambda>p. p),
      tokenize_variable_array2 = (\<lambda>v. [v]), signal_is_blocked = False\<rparr>"

definition demo_autoload :: "nat \<Rightarrow> autoload_t" where
  "demo_autoload sz = autoload_ctor sz ''fish_function_path'' []"

text \<open>Is there an accessible candidate file for the command in a directory of the list?\<close>

definition file_on_path :: "world \<Rightarrow> wcstring \<Rightarrow> wcstring list \<Rightarrow> bool" where
  "file_on_path w cmd path_list =
     list_ex (\<lambda>next. accessible (access_file w (candidate_path next cmd))) path_list"

text \<open>Two calls in a row: the second one runs on the state that the first one leaves.\<close>

definition and_then ::
  "('r \<times> 's \<times> event list) option \<Rightarrow> ('s \<Rightarrow> ('q \<times> 's \<times> event list) option) \<Rightarrow>
   ('q \<times> 's \<times> event list) option" where
  "and_then x f = (case x of None \<Rightarrow> None | Some (r, s, ev) \<Rightarrow> f s)"

text \<open>States for examples: a manager with three builtins, and a manager whose cache holds
  a placeholder for \<^verbatim>\<open>zz\<close> at address 1.\<close>

definition demo_builtins :: "builtin_script_t list" where
  "demo_builtins =
     [\<lparr>name = ''cd'', def = ''function cd; end''\<rparr>,
      \<lparr>name = ''foo'', def = ''function foo; end''\<rparr>,
      \<lparr>name = ''ls'', def = ''function ls; end''\<rparr>]"

definition demo_with_builtins :: autoload_t where
  "demo_with_builtins = autoload_ctor 4 ''fish_function_path'' demo_builtins"

definition demo_placeholder :: autoload_t where
  "demo_placeholder =
     \<lparr>max_node_count = 4, node_count = 1,
      nxt = (\<lambda>a. if a = mouth then 1 else mouth),
      prv = (\<lambda>a. if a = mouth then 1 else mouth),
      node_set = [''zz'' \<mapsto> 1],
      heap = [1 \<mapsto> \<lparr>key = ''zz'',
                     access = \<lparr>mod_time = 0, last_checked = 990, accessible = False,
                               stale = False, error = 0\<rparr>,
                     is_loaded = False, is_placeholder = True\<rparr>],
      fresh = 2,
      env_var_name = ''fish_function_path'', builtin_scripts = [], path = ''/d'',
      is_loading_set = {}\<rparr>"

definition demo_loading :: autoload_t where
  "demo_loading = (demo_autoload 4)\<lparr>path := ''/d'', is_loading_set := {''foo''}\<rparr>"
section \<open>Link surgery\<close>

lemma path_via_append:
  "path_via f a (xs @ y # ys) b = (path_via f a xs y \<and> path_via f y ys b)"
  by (induction xs arbitrary: a) auto

lemma path_via_upd:
  "u \<noteq> a \<Longrightarrow> u \<notin> set xs \<Longrightarrow> path_via (f(u := v)) a xs b = path_via f a xs b"
  by (induction xs arbitrary: a) auto

lemma path_via_hd: "path_via f a xs b \<Longrightarrow> f a = hd (xs @ [b])"
  by (cases xs) auto

lemma last_rev_hd: "last (m # rev bs) = hd (bs @ [m])"
  by (cases bs) auto

lemma path_via_push_front:
  assumes "path_via f m xs b" "a \<noteq> m" "a \<notin> set xs" "m \<notin> set xs"
  shows "path_via ((f(a := f m))(m := a)) m (a # xs) b"
  using assms by (cases xs) (auto simp: path_via_upd)

lemma path_via_push_back:
  "path_via f a xs b \<Longrightarrow> distinct (a # xs) \<Longrightarrow> c \<noteq> a \<Longrightarrow> c \<notin> set xs \<Longrightarrow>
   path_via ((f(last (a # xs) := c))(c := b)) a (xs @ [c]) b"
proof (induction xs arbitrary: a)
  case Nil
  then show ?case by auto
next
  case (Cons x xs)
  then show ?case by (auto simp: path_via_upd)
qed

lemma path_via_unlink:
  "path_via f a as x \<Longrightarrow> path_via f x bs b \<Longrightarrow> distinct (a # as @ x # bs) \<Longrightarrow>
   path_via (f(last (a # as) := hd (bs @ [b]))) a (as @ bs) b"
proof (induction as arbitrary: a)
  case Nil
  show ?case
  proof (cases bs)
    case Nil
    then show ?thesis by simp
  next
    case (Cons y ys)
    with Nil.prems have "path_via f y ys b" "a \<noteq> y" "a \<notin> set ys" by auto
    then have "path_via (f(a := y)) a (y # ys) b" by (simp add: path_via_upd)
    with Cons show ?thesis by (simp add: fun_upd_def del: path_via.simps)
  qed
next
  case (Cons z zs)
  then show ?case by auto
qed

lemma unlink_both:
  assumes n: "path_via n m (as @ a # bs) m"
    and p: "path_via p m (rev (as @ a # bs)) m"
    and d: "distinct (m # as @ a # bs)"
  shows "p a = last (m # as)" and "n a = hd (bs @ [m])"
    and "path_via (n(p a := n a)) m (as @ bs) m"
    and "path_via (p(n a := p a)) m (rev (as @ bs)) m"
proof -
  from n have n1: "path_via n m as a" and n2: "path_via n a bs m"
    by (simp_all add: path_via_append)
  from p have p1: "path_via p m (rev bs) a" and p2: "path_via p a (rev as) m"
    by (simp_all add: path_via_append)
  from p2 have pa: "p a = hd (rev as @ [m])" by (rule path_via_hd)
  then show pa': "p a = last (m # as)" using last_rev_hd [of m "rev as"] by simp
  from n2 show na: "n a = hd (bs @ [m])" by (rule path_via_hd)
  from path_via_unlink [OF n1 n2 d] show "path_via (n(p a := n a)) m (as @ bs) m"
    by (simp only: pa' na)
  have d': "distinct (m # rev bs @ a # rev as)" using d by auto
  from path_via_unlink [OF p1 p2 d']
  have "path_via (p(last (m # rev bs) := hd (rev as @ [m]))) m (rev bs @ rev as) m" .
  then show "path_via (p(n a := p a)) m (rev (as @ bs)) m"
    by (simp only: pa na last_rev_hd rev_append)
qed

lemma relink_front:
  assumes n: "path_via n m xs m" and p: "path_via p m (rev xs) m"
    and d: "distinct (m # xs)" and a: "a \<noteq> m" "a \<notin> set xs"
  shows "path_via ((n(a := n m))(m := a)) m (a # xs) m"
    and "path_via ((p(n m := a))(a := m)) m (rev (a # xs)) m"
proof -
  from d have "m \<notin> set xs" by simp
  from path_via_push_front [OF n a(1) a(2) this]
  show "path_via ((n(a := n m))(m := a)) m (a # xs) m" .
  have nm: "n m = last (m # rev xs)" using path_via_hd [OF n] by (simp only: last_rev_hd)
  have "distinct (m # rev xs)" using d by simp
  from path_via_push_back [OF p this a(1)] a(2)
  show "path_via ((p(n m := a))(a := m)) m (rev (a # xs)) m"
    by (simp only: nm rev.simps set_rev) simp
qed


section \<open>The cache operations on well-formed states\<close>

lemma evict_node_rep:
  assumes r: "lru_rep c xs" and a: "a \<in> set xs"
  shows "\<exists>c' f. heap c a = Some f \<and> evict_node c a = Some (c', eviction_trace f) \<and>
           lru_rep c' (remove1 a xs) \<and> heap c' = (heap c)(a := None) \<and>
           node_set c' = (node_set c)(key f := None) \<and>
           max_node_count c' = max_node_count c \<and> fresh c' = fresh c \<and>
           lru_cache.more c' = lru_cache.more c"
proof -
  from a obtain as bs where xs: "xs = as @ a # bs" by (meson split_list)
  from r have n: "path_via (nxt c) mouth xs mouth" and p: "path_via (prv c) mouth (rev xs) mouth"
    and d: "distinct xs" and m: "mouth \<notin> set xs" and cnt: "node_count c = length xs"
    and idx1: "\<forall>a \<in> set xs. \<exists>f. heap c a = Some f \<and> node_set c (key f) = Some a"
    and idx2: "\<forall>k a. node_set c k = Some a \<longrightarrow> a \<in> set xs \<and> (\<exists>f. heap c a = Some f \<and> key f = k)"
    and fr: "\<forall>a. heap c a \<noteq> None \<longrightarrow> a < fresh c" "mouth < fresh c"
    by (simp_all add: lru_rep_def)
  from d m xs have dm: "distinct (mouth # as @ a # bs)" by simp
  from d xs have rm: "remove1 a xs = as @ bs" by (simp add: remove1_append)
  from idx1 a obtain f where f: "heap c a = Some f" "node_set c (key f) = Some a" by blast
  note u = unlink_both [OF n [unfolded xs] p [unfolded xs] dm]
  have "last (mouth # as) \<in> set (mouth # as)" by (rule last_in_set) simp
  moreover have "a \<notin> set (mouth # as)" using dm by auto
  ultimately have pa: "prv c a \<noteq> a" using u(1) by metis
  have am: "a \<noteq> mouth" using dm by auto
  define c' where "c' = c\<lparr>nxt := (nxt c)(prv c a := nxt c a),
      prv := (prv c)(nxt c a := prv c a),
      node_set := (node_set c)(key f := None),
      node_count := length xs - 1,
      heap := (heap c)(a := None)\<rparr>"
  have cpos: "node_count c \<noteq> 0" using cnt xs by simp
  have ev: "evict_node c a = Some (c', eviction_trace f)"
    using am f pa cpos cnt
    by (simp add: evict_node_def node_was_evicted_def Let_def c'_def eviction_trace_def)
  have i1: "\<forall>b \<in> set (as @ bs). \<exists>g. heap c' b = Some g \<and> node_set c' (key g) = Some b"
  proof
    fix b assume b: "b \<in> set (as @ bs)"
    then have bx: "b \<in> set xs" and ba: "b \<noteq> a" using xs dm by auto
    from idx1 bx obtain g where g: "heap c b = Some g" "node_set c (key g) = Some b" by blast
    have "key g \<noteq> key f" using g f ba by auto
    then show "\<exists>g. heap c' b = Some g \<and> node_set c' (key g) = Some b"
      using g ba by (auto simp: c'_def)
  qed
  have i2: "\<forall>k b. node_set c' k = Some b \<longrightarrow> b \<in> set (as @ bs) \<and> (\<exists>g. heap c' b = Some g \<and> key g = k)"
  proof (intro allI impI)
    fix k b assume "node_set c' k = Some b"
    then have k: "k \<noteq> key f" "node_set c k = Some b" by (auto simp: c'_def split: if_splits)
    with idx2 obtain g where g: "b \<in> set xs" "heap c b = Some g" "key g = k" by blast
    have "b \<noteq> a" using g k f by auto
    then show "b \<in> set (as @ bs) \<and> (\<exists>g. heap c' b = Some g \<and> key g = k)"
      using g xs by (auto simp: c'_def)
  qed
  have "lru_rep c' (as @ bs)"
    unfolding lru_rep_def
  proof (intro conjI)
    show "path_via (nxt c') mouth (as @ bs) mouth" using u(3) by (simp add: c'_def)
    show "path_via (prv c') mouth (rev (as @ bs)) mouth" using u(4) by (simp add: c'_def)
    show "distinct (as @ bs)" using dm by auto
    show "mouth \<notin> set (as @ bs)" using dm by auto
    show "node_count c' = length (as @ bs)" using xs by (simp add: c'_def)
    show "\<forall>b \<in> set (as @ bs). \<exists>g. heap c' b = Some g \<and> node_set c' (key g) = Some b" by (rule i1)
    show "\<forall>k b. node_set c' k = Some b \<longrightarrow> b \<in> set (as @ bs) \<and> (\<exists>g. heap c' b = Some g \<and> key g = k)"
      by (rule i2)
    show "\<forall>a. heap c' a \<noteq> None \<longrightarrow> a < fresh c'" using fr by (auto simp: c'_def)
    show "mouth < fresh c'" using fr by (simp add: c'_def)
  qed
  with ev f rm show ?thesis by (auto simp: c'_def)
qed


lemma lru_rep_node_set:
  assumes "lru_rep c xs"
  shows "node_set c k = Some a \<longleftrightarrow> a \<in> set xs \<and> (\<exists>f. heap c a = Some f \<and> key f = k)"
proof
  assume "node_set c k = Some a"
  with assms show "a \<in> set xs \<and> (\<exists>f. heap c a = Some f \<and> key f = k)"
    by (simp add: lru_rep_def)
next
  assume "a \<in> set xs \<and> (\<exists>f. heap c a = Some f \<and> key f = k)"
  moreover from assms
  have "\<forall>a \<in> set xs. \<exists>f. heap c a = Some f \<and> node_set c (key f) = Some a"
    by (simp add: lru_rep_def)
  ultimately show "node_set c k = Some a" by fastforce
qed

lemma lru_rep_prv_mouth:
  assumes "lru_rep c xs" and "xs \<noteq> []"
  shows "prv c mouth = last xs"
proof -
  from assms(1) have "path_via (prv c) mouth (rev xs) mouth" by (simp add: lru_rep_def)
  then have "prv c mouth = hd (rev xs @ [mouth])" by (rule path_via_hd)
  with assms(2) show ?thesis by (simp add: hd_append hd_rev)
qed

lemma evict_last_node_rep:
  assumes r: "lru_rep c xs" and ne: "xs \<noteq> []"
  shows "\<exists>c' f. heap c (last xs) = Some f \<and> evict_last_node c = Some (c', eviction_trace f) \<and>
           lru_rep c' (butlast xs) \<and> heap c' = (heap c)(last xs := None) \<and>
           max_node_count c' = max_node_count c \<and> fresh c' = fresh c \<and>
           lru_cache.more c' = lru_cache.more c"
proof -
  from r have d: "distinct xs" by (simp add: lru_rep_def)
  from ne obtain ys y where xs: "xs = ys @ [y]" by (cases xs rule: rev_cases) auto
  with d have rm: "remove1 (last xs) xs = butlast xs" by (simp add: remove1_append)
  have el: "evict_last_node c = evict_node c (last xs)"
    using lru_rep_prv_mouth [OF r ne] by (simp add: evict_last_node_def)
  from evict_node_rep [OF r last_in_set [OF ne]]
  show ?thesis unfolding el rm by blast
qed

lemma evict_while_above_rep:
  "lru_rep c xs \<Longrightarrow>
   \<exists>c'. evict_while_above limit c =
           Some (c', concat (map (\<lambda>a. eviction_trace (the (heap c a))) (rev (drop limit xs)))) \<and>
        lru_rep c' (take limit xs) \<and>
        heap c' = (\<lambda>a. if a \<in> set (drop limit xs) then None else heap c a) \<and>
        max_node_count c' = max_node_count c \<and> fresh c' = fresh c \<and>
        lru_cache.more c' = lru_cache.more c"
proof (induction xs arbitrary: c rule: rev_induct)
  case Nil
  then have "node_count c = 0" by (simp add: lru_rep_def)
  with Nil show ?case by simp
next
  case (snoc x xs)
  from snoc.prems have cnt: "node_count c = Suc (length xs)" and d: "distinct (xs @ [x])"
    by (simp_all add: lru_rep_def)
  show ?case
  proof (cases "limit < Suc (length xs)")
    case False
    with cnt snoc.prems show ?thesis by simp
  next
    case True
    from evict_last_node_rep [OF snoc.prems] obtain c1 f where
      c1: "heap c x = Some f" "evict_last_node c = Some (c1, eviction_trace f)"
        "lru_rep c1 xs" "heap c1 = (heap c)(x := None)"
        "max_node_count c1 = max_node_count c" "fresh c1 = fresh c"
        "lru_cache.more c1 = lru_cache.more c"
      by auto
    from snoc.IH [OF c1(3)] obtain c' where
      c': "evict_while_above limit c1 =
             Some (c', concat (map (\<lambda>a. eviction_trace (the (heap c1 a))) (rev (drop limit xs))))"
        "lru_rep c' (take limit xs)"
        "heap c' = (\<lambda>a. if a \<in> set (drop limit xs) then None else heap c1 a)"
        "max_node_count c' = max_node_count c1" "fresh c' = fresh c1"
        "lru_cache.more c' = lru_cache.more c1"
      by auto
    have same: "map (\<lambda>a. eviction_trace (the (heap c1 a))) (rev (drop limit xs)) =
                map (\<lambda>a. eviction_trace (the (heap c a))) (rev (drop limit xs))"
      using d c1(4) by (auto dest: in_set_dropD)
    have tk: "take limit (xs @ [x]) = take limit xs" and
      dr: "drop limit (xs @ [x]) = drop limit xs @ [x]"
      using True by auto
    have "evict_while_above limit c =
            Some (c', concat (map (\<lambda>a. eviction_trace (the (heap c a))) (rev (drop limit (xs @ [x])))))"
      using True cnt c1(1,2) c'(1) same
      by (subst evict_while_above.simps) (simp add: dr)
    moreover have "heap c' = (\<lambda>a. if a \<in> set (drop limit (xs @ [x])) then None else heap c a)"
      unfolding dr using c'(3) c1(4) by (auto simp: fun_eq_iff)
    ultimately show ?thesis using c' c1 tk by auto
  qed
qed


declare evict_while_above.simps [simp del]

lemma lru_rep_link_front:
  assumes r: "lru_rep c xs" and nm: "node \<noteq> mouth" and nx: "node \<notin> set xs"
    and f: "heap c node = Some f" and k: "node_set c (key f) = None"
    and n': "nxt c' = ((nxt c)(node := nxt c mouth))(mouth := node)"
    and p': "prv c' = ((prv c)(nxt c mouth := node))(node := mouth)"
    and s': "node_set c' = (node_set c)(key f \<mapsto> node)"
    and c': "node_count c' = node_count c + 1"
    and h': "heap c' = heap c" and f': "fresh c' = fresh c"
  shows "lru_rep c' (node # xs)"
proof -
  from r have n: "path_via (nxt c) mouth xs mouth" and p: "path_via (prv c) mouth (rev xs) mouth"
    and d: "distinct xs" and m: "mouth \<notin> set xs" and cnt: "node_count c = length xs"
    and idx1: "\<forall>a \<in> set xs. \<exists>f. heap c a = Some f \<and> node_set c (key f) = Some a"
    and idx2: "\<forall>k a. node_set c k = Some a \<longrightarrow> a \<in> set xs \<and> (\<exists>f. heap c a = Some f \<and> key f = k)"
    and fr: "\<forall>a. heap c a \<noteq> None \<longrightarrow> a < fresh c" "mouth < fresh c"
    by (simp_all add: lru_rep_def)
  from d m have dm: "distinct (mouth # xs)" by simp
  note l = relink_front [OF n p dm nm nx]
  have i1: "\<forall>b \<in> set (node # xs). \<exists>g. heap c' b = Some g \<and> node_set c' (key g) = Some b"
  proof
    fix b assume b: "b \<in> set (node # xs)"
    show "\<exists>g. heap c' b = Some g \<and> node_set c' (key g) = Some b"
    proof (cases "b = node")
      case True
      with f show ?thesis by (simp add: h' s')
    next
      case False
      with b idx1 obtain g where g: "heap c b = Some g" "node_set c (key g) = Some b" by auto
      with k have "key g \<noteq> key f" by auto
      with g show ?thesis by (simp add: h' s')
    qed
  qed
  have i2: "\<forall>k b. node_set c' k = Some b \<longrightarrow>
              b \<in> set (node # xs) \<and> (\<exists>g. heap c' b = Some g \<and> key g = k)"
  proof (intro allI impI)
    fix k' b assume a: "node_set c' k' = Some b"
    show "b \<in> set (node # xs) \<and> (\<exists>g. heap c' b = Some g \<and> key g = k')"
    proof (cases "k' = key f")
      case True
      with a f show ?thesis by (simp add: h' s')
    next
      case False
      with a have "node_set c k' = Some b" by (simp add: s')
      with idx2 show ?thesis by (simp add: h')
    qed
  qed
  show ?thesis
    unfolding lru_rep_def
  proof (intro conjI)
    show "path_via (nxt c') mouth (node # xs) mouth" using l(1) by (simp only: n')
    show "path_via (prv c') mouth (rev (node # xs)) mouth" using l(2) by (simp only: p')
    show "distinct (node # xs)" using d nx by simp
    show "mouth \<notin> set (node # xs)" using m nm by auto
    show "node_count c' = length (node # xs)" using cnt c' by simp
    show "\<forall>b \<in> set (node # xs). \<exists>g. heap c' b = Some g \<and> node_set c' (key g) = Some b"
      by (rule i1)
    show "\<forall>k b. node_set c' k = Some b \<longrightarrow>
            b \<in> set (node # xs) \<and> (\<exists>g. heap c' b = Some g \<and> key g = k)"
      by (rule i2)
    show "\<forall>a. heap c' a \<noteq> None \<longrightarrow> a < fresh c'" using fr by (simp add: h' f')
    show "mouth < fresh c'" using fr by (simp add: f')
  qed
qed

lemma add_node_without_eviction_rep:
  assumes r: "lru_rep c xs" and nm: "node \<noteq> mouth" and nx: "node \<notin> set xs"
    and f: "heap c node = Some f" and k: "node_set c (key f) = None"
  shows "\<exists>c'. add_node_without_eviction c node =
           Some (True, c',
             concat (map (\<lambda>a. eviction_trace (the (heap c a)))
                         (rev (drop (max_node_count c) (node # xs))))) \<and>
        lru_rep c' (take (max_node_count c) (node # xs)) \<and>
        heap c' = (\<lambda>a. if a \<in> set (drop (max_node_count c) (node # xs)) then None else heap c a) \<and>
        max_node_count c' = max_node_count c \<and> fresh c' = fresh c \<and>
        lru_cache.more c' = lru_cache.more c"
proof -
  define c6 where "c6 = c\<lparr>node_set := (node_set c)(key f \<mapsto> node),
      prv := ((prv c)(nxt c mouth := node))(node := mouth),
      nxt := ((nxt c)(node := nxt c mouth))(mouth := node),
      node_count := node_count c + 1\<rparr>"
  have r6: "lru_rep c6 (node # xs)"
    by (rule lru_rep_link_front [OF r nm nx f k]) (simp_all add: c6_def)
  have eq: "add_node_without_eviction c node =
      (case evict_while_above (max_node_count c6) c6 of
         None \<Rightarrow> None | Some (c7, ev) \<Rightarrow> Some (True, c7, ev))"
    using nm f k by (simp add: add_node_without_eviction_def Let_def c6_def)
  have h6: "heap c6 = heap c" "max_node_count c6 = max_node_count c" "fresh c6 = fresh c"
    "lru_cache.more c6 = lru_cache.more c"
    by (simp_all add: c6_def)
  from evict_while_above_rep [OF r6, of "max_node_count c"]
  show ?thesis unfolding eq h6 by auto
qed


lemma add_node_rep:
  assumes r: "lru_rep c xs" and nm: "node \<noteq> mouth" and nx: "node \<notin> set xs"
    and f: "heap c node = Some f" and k: "node_set c (key f) = None"
  shows "\<exists>c'. add_node c node =
           Some (True, c',
             concat (map (\<lambda>a. eviction_trace (the (heap c a)))
                         (rev (drop (max_node_count c) (node # xs))))) \<and>
        lru_rep c' (take (max_node_count c) (node # xs)) \<and>
        heap c' = (\<lambda>a. if a \<in> set (drop (max_node_count c) (node # xs)) then None else heap c a) \<and>
        max_node_count c' = max_node_count c \<and> fresh c' = fresh c \<and>
        lru_cache.more c' = lru_cache.more c"
proof -
  from add_node_without_eviction_rep [OF assms] obtain c1 where
    c1: "add_node_without_eviction c node =
           Some (True, c1,
             concat (map (\<lambda>a. eviction_trace (the (heap c a)))
                         (rev (drop (max_node_count c) (node # xs)))))"
      "lru_rep c1 (take (max_node_count c) (node # xs))"
      "heap c1 = (\<lambda>a. if a \<in> set (drop (max_node_count c) (node # xs)) then None else heap c a)"
      "max_node_count c1 = max_node_count c" "fresh c1 = fresh c"
      "lru_cache.more c1 = lru_cache.more c"
    by blast
  from c1(2) have "node_count c1 \<le> max_node_count c1"
    by (simp add: lru_rep_def c1(4))
  then have "evict_while_above (max_node_count c1) c1 = Some (c1, [])"
    by (subst evict_while_above.simps) simp
  with c1 show ?thesis by (simp add: add_node_def)
qed

lemma add_node_duplicate:
  assumes "node \<noteq> mouth" and "heap c node = Some f" and "node_set c (key f) \<noteq> None"
  shows "add_node_without_eviction c node = Some (False, c, [])"
    and "add_node c node = Some (False, c, [])"
  using assms by (simp_all add: add_node_def add_node_without_eviction_def)

lemma promote_node_rep:
  assumes r: "lru_rep c xs" and a: "a \<in> set xs"
  shows "\<exists>c'. promote_node c a = Some c' \<and> lru_rep c' (a # remove1 a xs) \<and>
           heap c' = heap c \<and> node_set c' = node_set c \<and>
           max_node_count c' = max_node_count c \<and> fresh c' = fresh c \<and>
           lru_cache.more c' = lru_cache.more c"
proof -
  from a obtain as bs where xs: "xs = as @ a # bs" by (meson split_list)
  from r have n: "path_via (nxt c) mouth xs mouth" and p: "path_via (prv c) mouth (rev xs) mouth"
    and d: "distinct xs" and m: "mouth \<notin> set xs" and cnt: "node_count c = length xs"
    and idx1: "\<forall>a \<in> set xs. \<exists>f. heap c a = Some f \<and> node_set c (key f) = Some a"
    and idx2: "\<forall>k a. node_set c k = Some a \<longrightarrow> a \<in> set xs \<and> (\<exists>f. heap c a = Some f \<and> key f = k)"
    and fr: "\<forall>a. heap c a \<noteq> None \<longrightarrow> a < fresh c" "mouth < fresh c"
    by (simp_all add: lru_rep_def)
  from d m xs have dm: "distinct (mouth # as @ a # bs)" by simp
  from d xs have rm: "remove1 a xs = as @ bs" by (simp add: remove1_append)
  note u = unlink_both [OF n [unfolded xs] p [unfolded xs] dm]
  have "last (mouth # as) \<in> set (mouth # as)" by (rule last_in_set) simp
  moreover have "a \<notin> set (mouth # as)" using dm by auto
  ultimately have pa: "prv c a \<noteq> a" using u(1) by metis
  have am: "a \<noteq> mouth" using dm by auto
  define n1 where "n1 = (nxt c)(prv c a := nxt c a)"
  define p1 where "p1 = (prv c)(nxt c a := prv c a)"
  have dm': "distinct (mouth # as @ bs)" using dm by auto
  have ab: "a \<notin> set (as @ bs)" using dm by auto
  note l = relink_front [OF u(3) [folded n1_def] u(4) [folded p1_def] dm' am ab]
  define c' where "c' = c\<lparr>prv := ((p1)(n1 mouth := a))(a := mouth),
      nxt := ((n1)(a := n1 mouth))(mouth := a)\<rparr>"
  have n1a: "n1 a = nxt c a" using pa by (simp add: n1_def)
  have pr: "promote_node c a = Some c'"
    using am pa by (simp add: promote_node_def Let_def c'_def n1_def p1_def)
  have "lru_rep c' (a # as @ bs)"
    unfolding lru_rep_def
  proof (intro conjI)
    show "path_via (nxt c') mouth (a # as @ bs) mouth" using l(1) by (simp add: c'_def)
    show "path_via (prv c') mouth (rev (a # as @ bs)) mouth" using l(2) by (simp add: c'_def)
    show "distinct (a # as @ bs)" using dm by auto
    show "mouth \<notin> set (a # as @ bs)" using dm by auto
    show "node_count c' = length (a # as @ bs)" using cnt xs by (simp add: c'_def)
    show "\<forall>b \<in> set (a # as @ bs). \<exists>g. heap c' b = Some g \<and> node_set c' (key g) = Some b"
      using idx1 xs by (simp add: c'_def)
    show "\<forall>k b. node_set c' k = Some b \<longrightarrow>
            b \<in> set (a # as @ bs) \<and> (\<exists>g. heap c' b = Some g \<and> key g = k)"
      using idx2 xs by (simp add: c'_def)
    show "\<forall>a. heap c' a \<noteq> None \<longrightarrow> a < fresh c'" using fr by (simp add: c'_def)
    show "mouth < fresh c'" using fr by (simp add: c'_def)
  qed
  with pr rm show ?thesis by (simp add: c'_def)
qed

lemma get_node_rep:
  assumes r: "lru_rep c xs"
  shows "node_set c k = None \<Longrightarrow> get_node c k = Some (None, c)"
    and "node_set c k = Some a \<Longrightarrow>
         \<exists>c'. get_node c k = Some (Some a, c') \<and> lru_rep c' (a # remove1 a xs) \<and>
           heap c' = heap c \<and> node_set c' = node_set c \<and>
           max_node_count c' = max_node_count c \<and> fresh c' = fresh c \<and>
           lru_cache.more c' = lru_cache.more c"
proof -
  show "node_set c k = None \<Longrightarrow> get_node c k = Some (None, c)"
    by (simp add: get_node_def)
  assume s: "node_set c k = Some a"
  with r have "a \<in> set xs" by (simp add: lru_rep_def)
  from promote_node_rep [OF r this] s
  show "\<exists>c'. get_node c k = Some (Some a, c') \<and> lru_rep c' (a # remove1 a xs) \<and>
           heap c' = heap c \<and> node_set c' = node_set c \<and>
           max_node_count c' = max_node_count c \<and> fresh c' = fresh c \<and>
           lru_cache.more c' = lru_cache.more c"
    by (auto simp: get_node_def)
qed

lemma evict_node_key_rep:
  assumes r: "lru_rep c xs"
  shows "node_set c k = None \<Longrightarrow> evict_node_key c k = Some (False, c, [])"
    and "node_set c k = Some a \<Longrightarrow>
         \<exists>c' f. heap c a = Some f \<and> evict_node_key c k = Some (True, c', eviction_trace f) \<and>
           lru_rep c' (remove1 a xs) \<and> heap c' = (heap c)(a := None) \<and>
           max_node_count c' = max_node_count c \<and> fresh c' = fresh c \<and>
           lru_cache.more c' = lru_cache.more c"
proof -
  show "node_set c k = None \<Longrightarrow> evict_node_key c k = Some (False, c, [])"
    by (simp add: evict_node_key_def)
  assume s: "node_set c k = Some a"
  with r have "a \<in> set xs" by (simp add: lru_rep_def)
  from evict_node_rep [OF r this] s
  show "\<exists>c' f. heap c a = Some f \<and> evict_node_key c k = Some (True, c', eviction_trace f) \<and>
           lru_rep c' (remove1 a xs) \<and> heap c' = (heap c)(a := None) \<and>
           max_node_count c' = max_node_count c \<and> fresh c' = fresh c \<and>
           lru_cache.more c' = lru_cache.more c"
    by (auto simp: evict_node_key_def)
qed

lemma lru_rep_init: "lru_rep (lru_cache_impl_t n) []"
  by (simp add: lru_rep_def lru_cache_impl_t_def mouth_def)


section \<open>The recency list of keys\<close>

lemma walk_path_via: "path_via f a xs b \<Longrightarrow> walk f a (length xs) = xs"
  by (induction xs arbitrary: a) auto

lemma lru_rep_nodes:
  assumes "lru_rep c xs"
  shows "lru_nodes c = xs"
proof -
  from assms have "path_via (nxt c) mouth xs mouth" "node_count c = length xs"
    by (simp_all add: lru_rep_def)
  then show ?thesis using walk_path_via [of "nxt c" mouth xs mouth]
    by (simp add: lru_nodes_def)
qed

lemma lru_rep_keys: "lru_rep c xs \<Longrightarrow> lru_keys c = map (key_at c) xs"
  by (simp add: lru_keys_def lru_rep_nodes)

lemma lru_rep_key_at:
  assumes "lru_rep c xs" and "a \<in> set xs"
  shows "node_set c (key_at c a) = Some a" and "heap c a \<noteq> None"
proof -
  from assms obtain f where "heap c a = Some f" "node_set c (key f) = Some a"
    unfolding lru_rep_def by blast
  then show "node_set c (key_at c a) = Some a" and "heap c a \<noteq> None"
    by (simp_all add: key_at_def)
qed

lemma lru_rep_inj: "lru_rep c xs \<Longrightarrow> inj_on (key_at c) (set xs)"
  by (rule inj_onI) (metis lru_rep_key_at(1) option.inject)

lemma lru_rep_distinct_keys: "lru_rep c xs \<Longrightarrow> distinct (map (key_at c) xs)"
  by (simp add: distinct_map lru_rep_inj) (simp add: lru_rep_def)

lemma lru_rep_present:
  assumes "lru_rep c xs"
  shows "k \<in> set (map (key_at c) xs) \<longleftrightarrow> node_set c k \<noteq> None"
proof
  assume "k \<in> set (map (key_at c) xs)"
  then obtain a where "a \<in> set xs" "k = key_at c a" by auto
  with lru_rep_key_at(1) [OF assms] show "node_set c k \<noteq> None" by auto
next
  assume "node_set c k \<noteq> None"
  then obtain a where a: "node_set c k = Some a" by auto
  with assms have "a \<in> set xs" "\<exists>f. heap c a = Some f \<and> key f = k"
    by (simp_all add: lru_rep_def)
  then have "a \<in> set xs" "key_at c a = k" by (auto simp: key_at_def)
  then show "k \<in> set (map (key_at c) xs)" by auto
qed

lemma lru_rep_lookup:
  assumes "lru_rep c xs" and "node_set c k = Some a"
  shows "a \<in> set xs" and "key_at c a = k"
proof -
  from assms have "a \<in> set xs \<and> (\<exists>f. heap c a = Some f \<and> key f = k)"
    by (simp add: lru_rep_def)
  then show "a \<in> set xs" and "key_at c a = k" by (auto simp: key_at_def)
qed

lemma map_remove1_inj:
  "inj_on f (set xs) \<Longrightarrow> a \<in> set xs \<Longrightarrow> map f (remove1 a xs) = remove1 (f a) (map f xs)"
proof (induction xs)
  case Nil
  then show ?case by simp
next
  case (Cons x xs)
  then show ?case by (auto simp: inj_on_def)
qed

lemma evicted_keys_append: "evicted_keys (ev @ ev') = evicted_keys ev @ evicted_keys ev'"
  by (induction ev rule: evicted_keys.induct) auto

lemma evicted_keys_trace: "evicted_keys (eviction_trace f) = [key f]"
  by (simp add: eviction_trace_def)

lemma evicted_keys_traces:
  "\<forall>a \<in> set ys. heap c a \<noteq> None \<Longrightarrow>
   evicted_keys (concat (map (\<lambda>a. eviction_trace (the (heap c a))) ys)) = map (key_at c) ys"
  by (induction ys) (auto simp: evicted_keys_append evicted_keys_trace key_at_def)

lemma map_key_at_cong:
  "\<forall>a \<in> set ys. heap c' a = heap c a \<Longrightarrow> map (key_at c') ys = map (key_at c) ys"
  by (simp add: key_at_def)

lemma lru_rep_new:
  assumes r: "lru_rep c xs" and n: "new_autoload_function c k = (a, c1)"
  shows "lru_rep c1 xs" and "a \<noteq> mouth" and "a \<notin> set xs"
    and "heap c1 = (heap c)(a \<mapsto> autoload_function_ctor k)"
    and "node_set c1 = node_set c" and "max_node_count c1 = max_node_count c"
    and "lru_cache.more c1 = lru_cache.more c" and "heap c a = None"
proof -
  from n have a: "a = fresh c"
    and c1: "c1 = c\<lparr>heap := (heap c)(fresh c \<mapsto> autoload_function_ctor k), fresh := Suc (fresh c)\<rparr>"
    by (auto simp: new_autoload_function_def)
  from r have fr: "\<forall>b. heap c b \<noteq> None \<longrightarrow> b < fresh c" "mouth < fresh c"
    and idx1: "\<forall>a \<in> set xs. \<exists>f. heap c a = Some f \<and> node_set c (key f) = Some a"
    and idx2: "\<forall>k a. node_set c k = Some a \<longrightarrow> a \<in> set xs \<and> (\<exists>f. heap c a = Some f \<and> key f = k)"
    by (simp_all add: lru_rep_def)
  from fr show "a \<noteq> mouth" by (simp add: a)
  from fr have hn: "heap c (fresh c) = None" by (metis less_irrefl)
  then show "heap c a = None" by (simp add: a)
  with idx1 show ax: "a \<notin> set xs" by auto
  show "heap c1 = (heap c)(a \<mapsto> autoload_function_ctor k)" by (simp add: a c1)
  show "node_set c1 = node_set c" "max_node_count c1 = max_node_count c"
    "lru_cache.more c1 = lru_cache.more c"
    by (simp_all add: c1)
  have i1: "\<forall>b \<in> set xs. \<exists>f. heap c1 b = Some f \<and> node_set c1 (key f) = Some b"
    using idx1 ax by (auto simp: c1 a)
  have i2: "\<forall>k b. node_set c1 k = Some b \<longrightarrow> b \<in> set xs \<and> (\<exists>f. heap c1 b = Some f \<and> key f = k)"
    using idx2 ax by (auto simp: c1 a)
  have i3: "\<forall>b. heap c1 b \<noteq> None \<longrightarrow> b < fresh c1"
    using fr by (auto simp: c1 less_Suc_eq)
  from r i1 i2 i3 fr show "lru_rep c1 xs"
    unfolding lru_rep_def by (simp add: c1)
qed


lemma take_drop_disjoint:
  "distinct ys \<Longrightarrow> b \<in> set (take n ys) \<Longrightarrow> b \<notin> set (drop n ys)"
  using distinct_append [of "take n ys" "drop n ys"] by auto

lemma keys_after_eviction:
  assumes d: "distinct ys" and live: "\<forall>b \<in> set ys. heap c b \<noteq> None"
    and h: "heap c' = (\<lambda>b. if b \<in> set (drop n ys) then None else heap c b)"
  shows "map (key_at c') (take n ys) = take n (map (key_at c) ys)"
    and "evicted_keys (concat (map (\<lambda>b. eviction_trace (the (heap c b))) (rev (drop n ys)))) =
         rev (drop n (map (key_at c) ys))"
proof -
  have "\<forall>b \<in> set (take n ys). heap c' b = heap c b"
    using take_drop_disjoint [OF d] by (simp add: h)
  then have "map (key_at c') (take n ys) = map (key_at c) (take n ys)"
    by (rule map_key_at_cong)
  then show "map (key_at c') (take n ys) = take n (map (key_at c) ys)"
    by (simp add: take_map)
  have "\<forall>b \<in> set (rev (drop n ys)). heap c b \<noteq> None"
    using live by (auto dest: in_set_dropD)
  from evicted_keys_traces [OF this]
  show "evicted_keys (concat (map (\<lambda>b. eviction_trace (the (heap c b))) (rev (drop n ys)))) =
         rev (drop n (map (key_at c) ys))"
    by (simp add: rev_map drop_map)
qed

lemma lru_rep_live: "lru_rep c xs \<Longrightarrow> \<forall>b \<in> set xs. heap c b \<noteq> None"
  by (auto dest: lru_rep_key_at(2))

lemma lru_rep_length: "lru_rep c xs \<Longrightarrow> node_count c = length xs"
  by (simp add: lru_rep_def)

lemma lru_rep_distinct: "lru_rep c xs \<Longrightarrow> distinct xs"
  by (simp add: lru_rep_def)

lemma insert_refines:
  assumes r: "lru_rep c xs" and n: "new_autoload_function c k = (a, c1)"
    and ins: "ins = add_node \<or> ins = add_node_without_eviction"
  shows "\<exists>c' ev xs'. ins c1 a = Some (k \<notin> set (map (key_at c) xs), c', ev) \<and> lru_rep c' xs' \<and>
           max_node_count c' = max_node_count c \<and> lru_cache.more c' = lru_cache.more c \<and>
           map (key_at c') xs' = fst (abs_step (max_node_count c) (map (key_at c) xs) (Add k)) \<and>
           evicted_keys ev = snd (abs_step (max_node_count c) (map (key_at c) xs) (Add k))"
    (is "\<exists>c' ev xs'. ?P c' ev xs'")
proof -
  note nw = lru_rep_new [OF r n]
  have ka: "key (autoload_function_ctor k) = k" by (simp add: autoload_function_ctor_def)
  have ha: "heap c1 a = Some (autoload_function_ctor k)" by (simp add: nw(4))
  have same: "map (key_at c1) xs = map (key_at c) xs"
    by (rule map_key_at_cong) (use nw(3,4) in auto)
  have pres: "k \<in> set (map (key_at c) xs) \<longleftrightarrow> node_set c1 k \<noteq> None"
    using lru_rep_present [OF r] nw(5) by simp
  show ?thesis
  proof (cases "k \<in> set (map (key_at c) xs)")
    case True
    with pres have "node_set c1 (key (autoload_function_ctor k)) \<noteq> None" by (simp add: ka)
    from add_node_duplicate [OF nw(2) ha this] ins
    have "ins c1 a = Some (False, c1, [])" by auto
    with True nw same have "?P c1 [] xs" by simp
    then show ?thesis by blast
  next
    case False
    with pres have k: "node_set c1 (key (autoload_function_ctor k)) = None" by (simp add: ka)
    let ?n = "max_node_count c1"
    let ?ev = "concat (map (\<lambda>b. eviction_trace (the (heap c1 b))) (rev (drop ?n (a # xs))))"
    from add_node_rep [OF nw(1,2,3) ha k] add_node_without_eviction_rep [OF nw(1,2,3) ha k] ins
    obtain c' where c': "ins c1 a = Some (True, c', ?ev)"
      "lru_rep c' (take ?n (a # xs))"
      "heap c' = (\<lambda>b. if b \<in> set (drop ?n (a # xs)) then None else heap c1 b)"
      "max_node_count c' = max_node_count c1" "lru_cache.more c' = lru_cache.more c1"
      by auto
    have d: "distinct (a # xs)" using nw(3) lru_rep_distinct [OF r] by simp
    have live: "\<forall>b \<in> set (a # xs). heap c1 b \<noteq> None"
      using lru_rep_live [OF nw(1)] ha by simp
    note ke = keys_after_eviction [OF d live c'(3)]
    have kc: "map (key_at c1) (a # xs) = k # map (key_at c) xs"
      using same ha by (simp add: key_at_def ka)
    have "?P c' ?ev (take ?n (a # xs))"
      using c' False ke nw(6,7) unfolding kc by simp
    then show ?thesis by blast
  qed
qed


lemma cache_step_refines:
  assumes r: "lru_rep c xs"
  shows "\<exists>c' ev xs'. cache_step c x = Some (c', ev) \<and> lru_rep c' xs' \<and>
           max_node_count c' = max_node_count c \<and> lru_cache.more c' = lru_cache.more c \<and>
           map (key_at c') xs' = fst (abs_step (max_node_count c) (map (key_at c) xs) x) \<and>
           evicted_keys ev = snd (abs_step (max_node_count c) (map (key_at c) xs) x)"
    (is "\<exists>c' ev xs'. ?P c' ev xs'")
proof (cases x)
  case (Add k)
  obtain a c1 where n: "new_autoload_function c k = (a, c1)" by (cases "new_autoload_function c k")
  from insert_refines [OF r n, of add_node] n Add show ?thesis by auto
next
  case (AddWithoutEviction k)
  obtain a c1 where n: "new_autoload_function c k = (a, c1)" by (cases "new_autoload_function c k")
  from insert_refines [OF r n, of add_node_without_eviction] n AddWithoutEviction
  show ?thesis by auto
next
  case (Get k)
  show ?thesis
  proof (cases "node_set c k")
    case None
    with lru_rep_present [OF r, of k] have "k \<notin> set (map (key_at c) xs)" by simp
    with get_node_rep(1) [OF r None] r Get have "?P c [] xs" by simp
    then show ?thesis by blast
  next
    case (Some a)
    from get_node_rep(2) [OF r Some] obtain c' where
      c': "get_node c k = Some (Some a, c')" "lru_rep c' (a # remove1 a xs)" "heap c' = heap c"
        "max_node_count c' = max_node_count c" "lru_cache.more c' = lru_cache.more c"
      by blast
    note l = lru_rep_lookup [OF r Some]
    have "map (key_at c') (a # remove1 a xs) = map (key_at c) (a # remove1 a xs)"
      by (rule map_key_at_cong) (simp add: c'(3))
    also have "\<dots> = k # remove1 k (map (key_at c) xs)"
      using map_remove1_inj [OF lru_rep_inj [OF r] l(1)] l(2) by simp
    finally have "?P c' [] (a # remove1 a xs)"
      using c' Get l by (simp add: image_iff) (metis l(1) l(2))
    then show ?thesis by blast
  qed
next
  case (EvictKey k)
  show ?thesis
  proof (cases "node_set c k")
    case None
    with lru_rep_present [OF r, of k] have nk: "k \<notin> set (map (key_at c) xs)" by simp
    then have "remove1 k (map (key_at c) xs) = map (key_at c) xs" by (rule remove1_idem)
    with evict_node_key_rep(1) [OF r None] r EvictKey nk have "?P c [] xs" by simp
    then show ?thesis by blast
  next
    case (Some a)
    from evict_node_key_rep(2) [OF r Some] obtain c' f where
      c': "heap c a = Some f" "evict_node_key c k = Some (True, c', eviction_trace f)"
        "lru_rep c' (remove1 a xs)" "heap c' = (heap c)(a := None)"
        "max_node_count c' = max_node_count c" "lru_cache.more c' = lru_cache.more c"
      by blast
    note l = lru_rep_lookup [OF r Some]
    have kf: "key f = k" using l(2) c'(1) by (simp add: key_at_def)
    have "a \<notin> set (remove1 a xs)" using lru_rep_distinct [OF r] by simp
    then have "map (key_at c') (remove1 a xs) = map (key_at c) (remove1 a xs)"
      by (intro map_key_at_cong) (auto simp: c'(4))
    also have "\<dots> = remove1 k (map (key_at c) xs)"
      using map_remove1_inj [OF lru_rep_inj [OF r] l(1)] l(2) by simp
    finally have "?P c' (eviction_trace f) (remove1 a xs)"
      using c' EvictKey l kf by (simp add: evicted_keys_trace image_iff) (metis l(1) l(2))
    then show ?thesis by blast
  qed
next
  case EvictAll
  let ?ev = "concat (map (\<lambda>a. eviction_trace (the (heap c a))) (rev (drop 0 xs)))"
  from evict_while_above_rep [OF r, of 0] obtain c' where
    c': "evict_while_above 0 c = Some (c', ?ev)" "lru_rep c' (take 0 xs)"
      "max_node_count c' = max_node_count c" "lru_cache.more c' = lru_cache.more c"
    by blast
  have "evicted_keys ?ev = rev (map (key_at c) xs)"
    using evicted_keys_traces [of "rev xs" c] lru_rep_live [OF r] by (simp add: rev_map)
  with c' EvictAll have "?P c' ?ev []" by (simp add: evict_all_nodes_def)
  then show ?thesis by blast
qed

lemma run_ops_refines:
  "lru_rep c xs \<Longrightarrow>
   \<exists>c' ev xs'. run_ops c ops = Some (c', ev) \<and> lru_rep c' xs' \<and>
      max_node_count c' = max_node_count c \<and> lru_cache.more c' = lru_cache.more c \<and>
      map (key_at c') xs' = fst (abs_run (max_node_count c) (map (key_at c) xs) ops) \<and>
      evicted_keys ev = snd (abs_run (max_node_count c) (map (key_at c) xs) ops)"
proof (induction ops arbitrary: c xs)
  case Nil
  then show ?case by auto
next
  case (Cons x ops)
  from cache_step_refines [OF Cons.prems, of x] obtain c1 ev1 xs1 where
    s: "cache_step c x = Some (c1, ev1)" "lru_rep c1 xs1"
      "max_node_count c1 = max_node_count c" "lru_cache.more c1 = lru_cache.more c"
      "map (key_at c1) xs1 = fst (abs_step (max_node_count c) (map (key_at c) xs) x)"
      "evicted_keys ev1 = snd (abs_step (max_node_count c) (map (key_at c) xs) x)"
    by blast
  from Cons.IH [OF s(2)] obtain c' ev xs' where
    t: "run_ops c1 ops = Some (c', ev)" "lru_rep c' xs'"
      "max_node_count c' = max_node_count c1" "lru_cache.more c' = lru_cache.more c1"
      "map (key_at c') xs' = fst (abs_run (max_node_count c1) (map (key_at c1) xs1) ops)"
      "evicted_keys ev = snd (abs_run (max_node_count c1) (map (key_at c1) xs1) ops)"
    by blast
  from s t show ?case
    by (auto simp: evicted_keys_append split: prod.splits)
qed

lemma abs_step_length:
  assumes "length ks \<le> n"
  shows "length (fst (abs_step n ks x)) \<le> n"
proof (cases x)
  case (Get k)
  then show ?thesis
    using assms length_pos_if_in_set [of k ks] by (auto simp: length_remove1)
qed (use assms in \<open>auto simp: length_remove1\<close>)

lemma abs_run_length:
  "length ks \<le> n \<Longrightarrow> length (fst (abs_run n ks ops)) \<le> n"
proof (induction ops arbitrary: ks)
  case Nil
  then show ?case by simp
next
  case (Cons x ops)
  obtain ks1 ev where s: "abs_step n ks x = (ks1, ev)" by (cases "abs_step n ks x")
  with abs_step_length [OF Cons.prems, of x] have "length ks1 \<le> n" by simp
  from Cons.IH [OF this] s show ?case by (auto split: prod.splits)
qed


lemma lru_rep_index:
  assumes r: "lru_rep c xs"
  shows "card (dom (node_set c)) = length xs" and "ran (node_set c) = set xs"
proof -
  have "dom (node_set c) = key_at c ` set xs"
    using lru_rep_present [OF r] by (auto simp: dom_def)
  then have "card (dom (node_set c)) = card (set xs)"
    by (simp add: card_image lru_rep_inj [OF r])
  then show "card (dom (node_set c)) = length xs"
    by (simp add: distinct_card lru_rep_distinct [OF r])
  show "ran (node_set c) = set xs"
  proof
    show "ran (node_set c) \<subseteq> set xs"
      using lru_rep_lookup(1) [OF r] by (auto simp: ran_def)
    show "set xs \<subseteq> ran (node_set c)"
      using lru_rep_key_at(1) [OF r] by (auto simp: ran_def)
  qed
qed

declare evict_lru.simps [simp del]

lemma evict_lru_eq: "evict_lru n ks = (take n ks, rev (drop n ks))"
proof (induction n ks rule: evict_lru.induct)
  case (1 n ks)
  show ?case
  proof (cases "n < length ks")
    case True
    then obtain ys y where ks: "ks = ys @ [y]" by (cases ks rule: rev_cases) auto
    have "take n (butlast ks) = take n ks" using True by (simp add: take_butlast)
    moreover have "last ks # rev (drop n (butlast ks)) = rev (drop n ks)"
      using True by (simp add: ks)
    ultimately show ?thesis using True "1.IH" [OF True]
      by (subst evict_lru.simps) (simp split: prod.splits)
  next
    case False
    then show ?thesis by (subst evict_lru.simps) simp
  qed
qed

lemma abs_step_as_op: "abs_step n ks (as_op u) = lru_spec n ks u"
  by (cases u) (simp_all add: evict_lru_eq)

lemma abs_run_as_op: "abs_run n ks (map as_op us) = lru_spec_run n ks us"
  by (induction us arbitrary: ks) (simp_all add: abs_step_as_op)

lemma abs_run_fresh_inserts:
  "distinct (ks @ pre) \<Longrightarrow> length ks + length pre \<le> n \<Longrightarrow>
   abs_run n pre (map Add ks) = (rev ks @ pre, [])"
proof (induction ks arbitrary: pre)
  case Nil
  then show ?case by simp
next
  case (Cons k ks)
  from Cons.prems have "distinct (ks @ k # pre)" "length ks + length (k # pre) \<le> n" by auto
  from Cons.IH [OF this] Cons.prems show ?case by simp
qed


declare lower_bound.simps [simp del]

section \<open>The blocks of the resolution on well-formed states\<close>

lemma get_node_lru:
  assumes r: "lru_rep s xs"
  shows "\<exists>s1 xs1. get_node s cmd = Some (node_set s cmd, s1) \<and> lru_rep s1 xs1 \<and>
           set xs1 = set xs \<and> heap s1 = heap s \<and> node_set s1 = node_set s \<and>
           max_node_count s1 = max_node_count s \<and> fresh s1 = fresh s \<and>
           node_count s1 = node_count s \<and> lru_cache.more s1 = lru_cache.more s"
proof (cases "node_set s cmd")
  case None
  with get_node_rep(1) [OF r None] r show ?thesis by auto
next
  case (Some a)
  from get_node_rep(2) [OF r Some] obtain s1 where
    s1: "get_node s cmd = Some (Some a, s1)" "lru_rep s1 (a # remove1 a xs)"
      "heap s1 = heap s" "node_set s1 = node_set s" "max_node_count s1 = max_node_count s"
      "fresh s1 = fresh s" "lru_cache.more s1 = lru_cache.more s"
    by blast
  from lru_rep_lookup(1) [OF r Some] have ax: "a \<in> set xs" .
  then have st: "set (a # remove1 a xs) = set xs"
    using lru_rep_distinct [OF r] by auto
  have "length (a # remove1 a xs) = length xs"
    using ax by (simp add: length_remove1) (use ax length_pos_if_in_set in fastforce)
  then have "node_count s1 = node_count s"
    using lru_rep_length [OF r] lru_rep_length [OF s1(2)] by simp
  with s1 st Some show ?thesis by auto
qed

lemma deref_cached:
  assumes r: "lru_rep s xs"
  shows "deref s (node_set s cmd) = Some (cached_function s cmd)"
proof (cases "node_set s cmd")
  case None
  then show ?thesis by (simp add: deref_def cached_function_def)
next
  case (Some a)
  from lru_rep_lookup(1) [OF r Some] lru_rep_live [OF r] obtain f where "heap s a = Some f"
    by auto
  with Some show ?thesis by (simp add: deref_def cached_function_def)
qed

lemma cached_function_key:
  assumes r: "lru_rep s xs" and c: "cached_function s cmd = Some f"
  shows "key f = cmd" and "\<exists>a. node_set s cmd = Some a \<and> heap s a = Some f \<and> a \<in> set xs"
proof -
  from c obtain a where a: "node_set s cmd = Some a" "heap s a = Some f"
    by (auto simp: cached_function_def split: option.splits)
  from lru_rep_lookup [OF r a(1)] a show "key f = cmd"
    and "\<exists>a. node_set s cmd = Some a \<and> heap s a = Some f \<and> a \<in> set xs"
    by (auto simp: key_at_def)
qed

lemma update_node_lru:
  assumes r: "lru_rep s xs" and h: "heap s a = Some f" and k: "key (g f) = key f"
  shows "\<exists>s'. update_node s a g = Some s' \<and> lru_rep s' xs \<and>
           heap s' = (heap s)(a \<mapsto> g f) \<and> node_set s' = node_set s \<and>
           max_node_count s' = max_node_count s \<and> fresh s' = fresh s \<and>
           node_count s' = node_count s \<and> lru_cache.more s' = lru_cache.more s"
proof -
  define s' where "s' = s\<lparr>heap := (heap s)(a \<mapsto> g f)\<rparr>"
  from r have idx1: "\<forall>a \<in> set xs. \<exists>f. heap s a = Some f \<and> node_set s (key f) = Some a"
    and idx2: "\<forall>k a. node_set s k = Some a \<longrightarrow> a \<in> set xs \<and> (\<exists>f. heap s a = Some f \<and> key f = k)"
    and fr: "\<forall>a. heap s a \<noteq> None \<longrightarrow> a < fresh s"
    by (simp_all add: lru_rep_def)
  have i1: "\<forall>b \<in> set xs. \<exists>f. heap s' b = Some f \<and> node_set s' (key f) = Some b"
    using idx1 h k by (auto simp: s'_def)
  have i2: "\<forall>k b. node_set s' k = Some b \<longrightarrow> b \<in> set xs \<and> (\<exists>f. heap s' b = Some f \<and> key f = k)"
  proof (intro allI impI)
    fix k' b assume "node_set s' k' = Some b"
    then have "node_set s k' = Some b" by (simp add: s'_def)
    with idx2 obtain f' where "b \<in> set xs" "heap s b = Some f'" "key f' = k'" by blast
    with h k show "b \<in> set xs \<and> (\<exists>f. heap s' b = Some f \<and> key f = k')"
      by (cases "b = a") (auto simp: s'_def)
  qed
  have i3: "\<forall>b. heap s' b \<noteq> None \<longrightarrow> b < fresh s'"
    using fr h by (auto simp: s'_def)
  from r i1 i2 i3 have "lru_rep s' xs" unfolding lru_rep_def by (simp add: s'_def)
  moreover have "update_node s a g = Some s'" using h by (simp add: update_node_def s'_def)
  ultimately show ?thesis by (auto simp: s'_def)
qed


lemma probes_append: "probes (ev @ ev') = probes ev @ probes ev'"
  by (induction ev rule: probes.induct) auto

lemma executed_append: "executed (ev @ ev') = executed ev @ executed ev'"
  by (induction ev rule: executed.induct) auto

lemma removed_commands_append:
  "removed_commands (ev @ ev') = removed_commands ev @ removed_commands ev'"
  by (induction ev rule: removed_commands.induct) auto

lemma eviction_traces_quiet:
  "probes (concat (map (\<lambda>b. eviction_trace (g b)) ys)) = []"
  "executed (concat (map (\<lambda>b. eviction_trace (g b)) ys)) = []"
  by (induction ys) (auto simp: probes_append executed_append eviction_trace_def)

lemma create_function_lru:
  assumes r: "lru_rep s xs" and absent: "node_set s cmd = None"
    and cap: "0 < max_node_count s" and k: "\<And>f. key (init f) = key f"
  shows "\<exists>a s' xs'. create_function s cmd really_load init =
             Some (a, s', concat (map (\<lambda>b. eviction_trace (the (heap s b)))
                                    (rev (drop (max_node_count s - 1) xs)))) \<and>
           lru_rep s' xs' \<and> heap s a = None \<and>
           heap s' a = Some (init (autoload_function_ctor cmd)) \<and> node_set s' cmd = Some a \<and>
           max_node_count s' = max_node_count s \<and> lru_cache.more s' = lru_cache.more s"
proof -
  obtain a s1 where n: "new_autoload_function s cmd = (a, s1)"
    by (cases "new_autoload_function s cmd")
  note nw = lru_rep_new [OF r n]
  have h1: "heap s1 a = Some (autoload_function_ctor cmd)" by (simp add: nw(4))
  have kc: "key (init (autoload_function_ctor cmd)) = key (autoload_function_ctor cmd)" by (rule k)
  from update_node_lru [of s1 xs a "autoload_function_ctor cmd" init, OF nw(1) h1 kc]
  obtain s2 where
    s2: "update_node s1 a init = Some s2" "lru_rep s2 xs"
      "heap s2 = (heap s1)(a \<mapsto> init (autoload_function_ctor cmd))" "node_set s2 = node_set s1"
      "max_node_count s2 = max_node_count s1" "lru_cache.more s2 = lru_cache.more s1"
    by blast
  let ?f = "init (autoload_function_ctor cmd)"
  have kf: "key ?f = cmd" by (simp add: k autoload_function_ctor_def)
  have h2: "heap s2 a = Some ?f" by (simp add: s2(3))
  have ab: "node_set s2 (key ?f) = None" using absent by (simp add: kf s2(4) nw(5))
  let ?n = "max_node_count s2"
  let ?ev = "concat (map (\<lambda>b. eviction_trace (the (heap s2 b))) (rev (drop ?n (a # xs))))"
  from add_node_rep [OF s2(2) nw(2,3) h2 ab] add_node_without_eviction_rep [OF s2(2) nw(2,3) h2 ab]
  obtain s3 where s3:
    "(if really_load then add_node s2 a else add_node_without_eviction s2 a) = Some (True, s3, ?ev)"
    "lru_rep s3 (take ?n (a # xs))"
    "heap s3 = (\<lambda>b. if b \<in> set (drop ?n (a # xs)) then None else heap s2 b)"
    "max_node_count s3 = max_node_count s2" "lru_cache.more s3 = lru_cache.more s2"
    by (cases really_load) auto
  have mx: "?n = max_node_count s" by (simp add: s2(5) nw(6))
  from cap obtain m where m: "max_node_count s = Suc m" by (cases "max_node_count s") auto
  have dr: "drop ?n (a # xs) = drop (max_node_count s - 1) xs" by (simp add: mx m)
  have "a \<notin> set (drop (max_node_count s - 1) xs)" using nw(3) by (auto dest: in_set_dropD)
  then have h3: "heap s3 a = Some ?f" by (simp add: s3(3) dr h2)
  have "a \<in> set (take ?n (a # xs))" by (simp add: mx m)
  with lru_rep_node_set [OF s3(2), of cmd a] h3 kf have ns: "node_set s3 cmd = Some a" by simp
  have "\<forall>b \<in> set (rev (drop (max_node_count s - 1) xs)). heap s2 b = heap s b"
    using nw(3) by (auto simp: s2(3) nw(4) dest: in_set_dropD)
  then have ev: "?ev = concat (map (\<lambda>b. eviction_trace (the (heap s b)))
                                    (rev (drop (max_node_count s - 1) xs)))"
    unfolding dr by (intro arg_cong [where f = concat] map_cong) auto
  have "create_function s cmd really_load init = Some (a, s3, ?ev)"
    using n s2(1) s3(1) by (simp add: create_function_def)
  with s3 h3 ns nw s2 show ?thesis unfolding ev by auto
qed


lemma update_twice_lru:
  assumes r: "lru_rep s xs" and h: "heap s a = Some f"
    and k1: "\<And>f. key (g1 f) = key f" and k2: "\<And>f. key (g2 f) = key f"
  shows "\<exists>s' s''. (if b then update_node s a g1 else Some s) = Some s' \<and>
           update_node s' a g2 = Some s'' \<and> lru_rep s'' xs \<and>
           max_node_count s'' = max_node_count s \<and> lru_cache.more s'' = lru_cache.more s \<and>
           node_set s'' = node_set s \<and> fresh s'' = fresh s \<and> node_count s'' = node_count s \<and>
           heap s'' = (heap s)(a \<mapsto> g2 (if b then g1 f else f))"
proof -
  from update_node_lru [of s xs a f g1, OF r h k1] obtain t where
    t: "update_node s a g1 = Some t" "lru_rep t xs" "heap t = (heap s)(a \<mapsto> g1 f)"
      "node_set t = node_set s" "max_node_count t = max_node_count s" "fresh t = fresh s"
      "node_count t = node_count s" "lru_cache.more t = lru_cache.more s"
    by blast
  show ?thesis
  proof (cases b)
    case True
    have ht: "heap t a = Some (g1 f)" by (simp add: t(3))
    from update_node_lru [of t xs a "g1 f" g2, OF t(2) ht k2] t True
    show ?thesis by auto
  next
    case False
    from update_node_lru [of s xs a f g2, OF r h k2] False
    show ?thesis by auto
  qed
qed

lemma update_if_lru:
  assumes r: "lru_rep s xs" and h: "heap s a = Some f" and k: "\<And>f. key (g f) = key f"
  shows "\<exists>s'. (if b then update_node s a g else Some s) = Some s' \<and> lru_rep s' xs \<and>
           max_node_count s' = max_node_count s \<and> lru_cache.more s' = lru_cache.more s \<and>
           node_set s' = node_set s \<and> fresh s' = fresh s \<and> node_count s' = node_count s \<and>
           heap s' a = Some (if b then g f else f)"
proof (cases b)
  case True
  from update_node_lru [of s xs a f g, OF r h k] True show ?thesis by auto
next
  case False
  with r h show ?thesis by auto
qed

lemma found_file_block_lru:
  fixes s :: autoload_t and really_load :: bool and cmd :: wcstring
    and acc :: file_access_attempt_t
  assumes r: "lru_rep s xs" and cap: "0 < max_node_count s"
  defines "need \<equiv> need_to_load_function really_load (cached_function s cmd) acc"
  shows "\<exists>s' xs'. found_file_block w s cmd really_load p acc =
           Some (s',
                 (case cached_function s cmd of
                    Some f \<Rightarrow> if need \<and> is_loaded f then [CommandRemoved cmd] else []
                  | None \<Rightarrow> concat (map (\<lambda>b. eviction_trace (the (heap s b)))
                                        (rev (drop (max_node_count s - 1) xs)))),
                 (if need then Some (''. '' @ escape_string w p) else None), need) \<and>
           lru_rep s' xs' \<and> max_node_count s' = max_node_count s \<and>
           lru_cache.more s' = lru_cache.more s"
proof -
  from get_node_lru [OF r, of cmd] obtain s1 xs1 where
    s1: "get_node s cmd = Some (node_set s cmd, s1)" "lru_rep s1 xs1" "set xs1 = set xs"
      "heap s1 = heap s" "node_set s1 = node_set s" "max_node_count s1 = max_node_count s"
      "lru_cache.more s1 = lru_cache.more s"
    by blast
  have cf: "cached_function s1 cmd = cached_function s cmd"
    by (simp add: cached_function_def s1(4,5) split: option.splits)
  have dr: "deref s1 (node_set s cmd) = Some (cached_function s cmd)"
    using deref_cached [OF s1(2), of cmd] by (simp add: s1(5) cf)
  show ?thesis
  proof (cases "cached_function s cmd")
    case None
    then have ns: "node_set s cmd = None"
      using deref_cached [OF r, of cmd] by (auto simp: deref_def split: option.splits)
    then have same: "s1 = s" using s1(1) get_node_rep(1) [OF r ns] by simp
    have nd: "need = really_load" by (simp add: need_def need_to_load_function_def None)
    from create_function_lru [OF r ns cap, of "\<lambda>f. f" really_load] obtain a s3 xs3 where
      s3: "create_function s cmd really_load (\<lambda>f. f) =
             Some (a, s3, concat (map (\<lambda>b. eviction_trace (the (heap s b)))
                                    (rev (drop (max_node_count s - 1) xs))))"
        "lru_rep s3 xs3" "heap s3 a = Some (autoload_function_ctor cmd)"
        "max_node_count s3 = max_node_count s" "lru_cache.more s3 = lru_cache.more s"
      by auto
    from update_twice_lru [of s3 xs3 a _ "\<lambda>f. f\<lparr>is_loaded := True\<rparr>" "\<lambda>f. f\<lparr>access := acc\<rparr>" need,
        OF s3(2,3)]
    obtain s4 s5 where
      s5: "(if need then update_node s3 a (\<lambda>f. f\<lparr>is_loaded := True\<rparr>) else Some s3) = Some s4"
        "update_node s4 a (\<lambda>f. f\<lparr>access := acc\<rparr>) = Some s5" "lru_rep s5 xs3"
        "max_node_count s5 = max_node_count s3" "lru_cache.more s5 = lru_cache.more s3"
      by auto
    have "found_file_block w s cmd really_load p acc =
            Some (s5, concat (map (\<lambda>b. eviction_trace (the (heap s b)))
                                    (rev (drop (max_node_count s - 1) xs))),
                  (if need then Some (''. '' @ escape_string w p) else None), need)"
      using s1(1) dr s3(1) s5(1,2) ns None nd
      by (cases really_load)
         (simp_all add: found_file_block_def same need_to_load_function_def prepare_reload_def Let_def)
    with s5 s3 None show ?thesis by auto
  next
    case (Some f)
    from cached_function_key(2) [OF r Some] obtain a where
      a: "node_set s cmd = Some a" "heap s a = Some f" "a \<in> set xs"
      by blast
    have h1: "heap s1 a = Some f" by (simp add: s1(4) a)
    let ?b = "need \<and> is_loaded f"
    from update_if_lru [of s1 xs1 a f "\<lambda>f. f\<lparr>is_placeholder := False\<rparr>" ?b, OF s1(2) h1]
    obtain s2 where
      s2: "(if ?b then update_node s1 a (\<lambda>f. f\<lparr>is_placeholder := False\<rparr>) else Some s1) = Some s2"
        "lru_rep s2 xs1"
        "heap s2 a = Some (if ?b then f\<lparr>is_placeholder := False\<rparr> else f)"
        "max_node_count s2 = max_node_count s1" "lru_cache.more s2 = lru_cache.more s1"
      by auto
    note h2 = s2(3)
    from update_twice_lru [of s2 xs1 a _ "\<lambda>f. f\<lparr>is_loaded := True\<rparr>" "\<lambda>f. f\<lparr>access := acc\<rparr>" need,
        OF s2(2) h2]
    obtain s4 s5 where
      s5: "(if need then update_node s2 a (\<lambda>f. f\<lparr>is_loaded := True\<rparr>) else Some s2) = Some s4"
        "update_node s4 a (\<lambda>f. f\<lparr>access := acc\<rparr>) = Some s5" "lru_rep s5 xs1"
        "max_node_count s5 = max_node_count s2" "lru_cache.more s5 = lru_cache.more s2"
      by auto
    have pr: "need \<Longrightarrow> prepare_reload w s1 cmd (Some a) p =
        Some (s2, if is_loaded f then [CommandRemoved cmd] else [], ''. '' @ escape_string w p)"
      using s2(1) h1 by (auto simp: prepare_reload_def Let_def split: if_splits)
    have nn: "\<not> need \<Longrightarrow> s2 = s1" using s2(1) by simp
    have "found_file_block w s cmd really_load p acc =
            Some (s5, (if ?b then [CommandRemoved cmd] else []),
                  (if need then Some (''. '' @ escape_string w p) else None), need)"
    proof (cases need)
      case True
      then have "need_to_load_function really_load (Some f) acc" by (simp add: need_def Some)
      with True s1(1) dr a Some pr s5(1,2) show ?thesis
        by (simp add: found_file_block_def)
    next
      case False
      then have "\<not> need_to_load_function really_load (Some f) acc" by (simp add: need_def Some)
      with False s1(1) dr a Some nn s5(1,2) show ?thesis
        by (simp add: found_file_block_def)
    qed
    with s5 s2 s1 Some show ?thesis by auto
  qed
qed


lemma more_eq_fields:
  fixes s s' :: autoload_t
  assumes "lru_cache.more s' = lru_cache.more s"
  shows "builtin_scripts s' = builtin_scripts s" and "path s' = path s"
    and "is_loading_set s' = is_loading_set s" and "env_var_name s' = env_var_name s"
  using assms by (cases s; cases s'; simp)+


section \<open>The binary search of the builtin table\<close>

lemma wcscmp_less: "wcscmp a b < 0 \<longleftrightarrow> a < b"
  by (simp add: wcscmp_def)

lemma wcscmp_eq: "wcscmp a b = 0 \<longleftrightarrow> a = b"
  by (auto simp: wcscmp_def)

lemma sorted_names_mono:
  assumes "sorted (map name tbl)" and "i \<le> j" and "j < length tbl"
  shows "name (tbl ! i) \<le> name (tbl ! j)"
  using sorted_nth_mono [OF assms(1), of i j] assms(2,3) by simp

lemma lower_bound_partition:
  "sorted (map name tbl) \<Longrightarrow> first + len \<le> length tbl \<Longrightarrow>
     (\<forall>i<first. name (tbl ! i) < name v) \<Longrightarrow>
     (\<forall>i. first + len \<le> i \<and> i < length tbl \<longrightarrow> \<not> name (tbl ! i) < name v) \<Longrightarrow>
     lower_bound tbl v first len \<le> length tbl \<and>
     (\<forall>i<lower_bound tbl v first len. name (tbl ! i) < name v) \<and>
     (\<forall>i. lower_bound tbl v first len \<le> i \<and> i < length tbl \<longrightarrow> \<not> name (tbl ! i) < name v)"
proof (induction tbl v first len rule: lower_bound.induct)
  case (1 tbl v first len)
  note sorted = "1.prems"(1)
  show ?case
  proof (cases "0 < len")
    case False
    with "1.prems" show ?thesis by (subst (1 2 3) lower_bound.simps) simp
  next
    case True
    define half where "half = len div 2"
    define middle where "middle = first + half"
    have hl: "half < len" using True by (simp add: half_def)
    have ml: "middle < length tbl" using hl "1.prems"(2) by (simp add: middle_def)
    show ?thesis
    proof (cases "script_name_precedes_script_name (tbl ! middle) v")
      case t: True
      then have lt: "name (tbl ! middle) < name v"
        by (simp add: script_name_precedes_script_name_def wcscmp_less)
      have eq: "lower_bound tbl v first len = lower_bound tbl v (middle + 1) (len - half - 1)"
        using True t by (subst lower_bound.simps) (simp add: Let_def half_def middle_def)
      have a1: "middle + 1 + (len - half - 1) \<le> length tbl"
        using hl "1.prems"(2) by (simp add: middle_def)
      have a2: "\<forall>i<middle + 1. name (tbl ! i) < name v"
      proof (intro allI impI)
        fix i assume "i < middle + 1"
        then have "i \<le> middle" by simp
        from sorted_names_mono [OF sorted this ml] lt show "name (tbl ! i) < name v" by simp
      qed
      have a3: "\<forall>i. middle + 1 + (len - half - 1) \<le> i \<and> i < length tbl \<longrightarrow>
                  \<not> name (tbl ! i) < name v"
        using "1.prems"(4) hl by (simp add: middle_def)
      from "1.IH"(1) [OF True half_def middle_def t sorted a1 a2 a3]
      show ?thesis unfolding eq .
    next
      case f: False
      then have nlt: "\<not> name (tbl ! middle) < name v"
        by (simp add: script_name_precedes_script_name_def wcscmp_less)
      have eq: "lower_bound tbl v first len = lower_bound tbl v first half"
        using True f by (subst lower_bound.simps) (simp add: Let_def half_def middle_def)
      have a1: "first + half \<le> length tbl" using ml by (simp add: middle_def)
      have a3: "\<forall>i. first + half \<le> i \<and> i < length tbl \<longrightarrow> \<not> name (tbl ! i) < name v"
      proof (intro allI impI)
        fix i assume i: "first + half \<le> i \<and> i < length tbl"
        then have "middle \<le> i" "i < length tbl" by (simp_all add: middle_def)
        from sorted_names_mono [OF sorted this] nlt show "\<not> name (tbl ! i) < name v" by auto
      qed
      from "1.IH"(2) [OF True half_def middle_def f sorted a1 "1.prems"(3) a3]
      show ?thesis unfolding eq .
    qed
  qed
qed

lemma matching_builtin_script_sorted:
  assumes s: "sorted (map name tbl)"
  shows "matching_builtin_script tbl cmd = find (\<lambda>b. name b = cmd) tbl"
proof (cases "0 < length tbl")
  case False
  then show ?thesis by (simp add: matching_builtin_script_def)
next
  case True
  define v where "v = \<lparr>name = cmd, def = []\<rparr>"
  define r where "r = lower_bound tbl v 0 (length tbl)"
  have nv: "name v = cmd" by (simp add: v_def)
  have m: "matching_builtin_script tbl cmd =
      (if r \<noteq> length tbl \<and> name (tbl ! r) = cmd then Some (tbl ! r) else None)"
    using True unfolding matching_builtin_script_def Let_def v_def [symmetric] r_def [symmetric]
    by (simp only: nv wcscmp_eq if_True)
  have "0 + length tbl \<le> length tbl" "\<forall>i<0. name (tbl ! i) < name v"
    "\<forall>i. 0 + length tbl \<le> i \<and> i < length tbl \<longrightarrow> \<not> name (tbl ! i) < name v"
    by auto
  from lower_bound_partition [OF s this]
  have p: "r \<le> length tbl" "\<forall>i<r. name (tbl ! i) < cmd"
    "\<forall>i. r \<le> i \<and> i < length tbl \<longrightarrow> \<not> name (tbl ! i) < cmd"
    unfolding r_def [symmetric] nv by blast+
  show ?thesis
  proof (cases "r \<noteq> length tbl \<and> name (tbl ! r) = cmd")
    case t: True
    with p(1) have rl: "r < length tbl" by simp
    have "\<forall>j<r. name (tbl ! j) \<noteq> cmd" using p(2) by auto
    with rl t have "\<exists>i<length tbl. name (tbl ! i) = cmd \<and> tbl ! r = tbl ! i \<and>
        (\<forall>j<i. name (tbl ! j) \<noteq> cmd)"
      by blast
    then have "find (\<lambda>b. name b = cmd) tbl = Some (tbl ! r)"
      unfolding find_Some_iff .
    with t show ?thesis unfolding m by simp
  next
    case f: False
    have "\<not> (\<exists>b. b \<in> set tbl \<and> name b = cmd)"
    proof
      assume "\<exists>b. b \<in> set tbl \<and> name b = cmd"
      then obtain i where i: "i < length tbl" "name (tbl ! i) = cmd"
        by (auto simp: in_set_conv_nth)
      have ri: "r \<le> i"
      proof (rule ccontr)
        assume "\<not> r \<le> i"
        then have "i < r" by simp
        with p(2) i(2) show False by auto
      qed
      with i have rl: "r < length tbl" by simp
      from sorted_names_mono [OF s ri i(1)] i(2) have "name (tbl ! r) \<le> cmd" by simp
      moreover from p(3) rl have "\<not> name (tbl ! r) < cmd" by simp
      ultimately have "name (tbl ! r) = cmd" by auto
      with f rl show False by simp
    qed
    then have "find (\<lambda>b. name b = cmd) tbl = None" unfolding find_None_iff .
    with f show ?thesis unfolding m by simp
  qed
qed


section \<open>Path search, placeholder and the resolution core\<close>

lemma search_path_not_found:
  "\<not> file_on_path w cmd path_list \<Longrightarrow>
   search_path w s cmd really_load path_list =
     Some (s, map (\<lambda>next. Probe (candidate_path next cmd)) path_list, False, None, False)"
  by (induction path_list) (simp_all add: file_on_path_def Let_def)

lemma executed_removed: "executed (if b then [CommandRemoved k] else []) = []"
  by simp

lemma search_path_found:
  fixes s :: autoload_t
  assumes r: "lru_rep s xs" and cap: "0 < max_node_count s"
  shows "file_on_path w cmd path_list \<Longrightarrow>
     \<exists>s' xs' ev acc next.
       search_path w s cmd really_load path_list =
         Some (s', ev, True,
               (if need_to_load_function really_load (cached_function s cmd) acc
                then Some (''. '' @ escape_string w (candidate_path next cmd)) else None),
               need_to_load_function really_load (cached_function s cmd) acc) \<and>
       lru_rep s' xs' \<and> max_node_count s' = max_node_count s \<and>
       lru_cache.more s' = lru_cache.more s \<and> executed ev = [] \<and>
       next \<in> set path_list \<and> acc = access_file w (candidate_path next cmd) \<and> accessible acc"
proof (induction path_list)
  case Nil
  then show ?case by (simp add: file_on_path_def)
next
  case (Cons d ds)
  let ?p = "candidate_path d cmd"
  show ?case
  proof (cases "accessible (access_file w ?p)")
    case True
    let ?acc = "access_file w ?p"
    from found_file_block_lru [OF r cap, of w cmd really_load ?p ?acc] obtain s' xs' ev where
      b: "found_file_block w s cmd really_load ?p ?acc =
            Some (s', ev,
              (if need_to_load_function really_load (cached_function s cmd) ?acc
               then Some (''. '' @ escape_string w ?p) else None),
              need_to_load_function really_load (cached_function s cmd) ?acc)"
        "ev = (case cached_function s cmd of
                 Some f \<Rightarrow> if need_to_load_function really_load (cached_function s cmd) ?acc \<and>
                              is_loaded f then [CommandRemoved cmd] else []
               | None \<Rightarrow> concat (map (\<lambda>b. eviction_trace (the (heap s b)))
                                     (rev (drop (max_node_count s - 1) xs))))"
        "lru_rep s' xs'" "max_node_count s' = max_node_count s"
        "lru_cache.more s' = lru_cache.more s"
      by blast
    have q: "executed ev = []"
      unfolding b(2) by (simp add: eviction_traces_quiet split: option.splits)
    have "search_path w s cmd really_load (d # ds) =
            Some (s', Probe ?p # ev, True,
              (if need_to_load_function really_load (cached_function s cmd) ?acc
               then Some (''. '' @ escape_string w ?p) else None),
              need_to_load_function really_load (cached_function s cmd) ?acc)"
      using True b(1) by (simp add: Let_def)
    with b(3-5) q True show ?thesis
      by (intro exI [of _ s'] exI [of _ xs'] exI [of _ "Probe ?p # ev"] exI [of _ ?acc]
            exI [of _ d]) simp
  next
    case False
    with Cons.prems have "file_on_path w cmd ds" by (simp add: file_on_path_def)
    from Cons.IH [OF this] obtain s' xs' ev acc nx where
      t: "search_path w s cmd really_load ds =
         Some (s', ev, True,
               (if need_to_load_function really_load (cached_function s cmd) acc
                then Some (''. '' @ escape_string w (candidate_path nx cmd)) else None),
               need_to_load_function really_load (cached_function s cmd) acc)"
       "lru_rep s' xs'" "max_node_count s' = max_node_count s"
       "lru_cache.more s' = lru_cache.more s" "executed ev = []"
       "nx \<in> set ds" "acc = access_file w (candidate_path nx cmd)" "accessible acc"
      by blast
    have "search_path w s cmd really_load (d # ds) =
         Some (s', Probe ?p # ev, True,
               (if need_to_load_function really_load (cached_function s cmd) acc
                then Some (''. '' @ escape_string w (candidate_path nx cmd)) else None),
               need_to_load_function really_load (cached_function s cmd) acc)"
      using False t(1) by (simp add: Let_def)
    with t(2-8) show ?thesis
      by (intro exI [of _ s'] exI [of _ xs'] exI [of _ "Probe ?p # ev"] exI [of _ acc]
            exI [of _ nx]) simp
  qed
qed

lemma placeholder_block_existing:
  fixes s :: autoload_t
  assumes r: "lru_rep s xs" and a: "node_set s cmd = Some a" and f: "heap s a = Some f"
  shows "\<exists>s' xs'. placeholder_block w s cmd really_load = Some (s', []) \<and> lru_rep s' xs' \<and>
           heap s' = (heap s)(a \<mapsto> f\<lparr>access := (access f)\<lparr>last_checked := now w\<rparr>\<rparr>) \<and>
           node_set s' = node_set s \<and> fresh s' = fresh s \<and> node_count s' = node_count s \<and>
           max_node_count s' = max_node_count s \<and> lru_cache.more s' = lru_cache.more s"
proof -
  from get_node_lru [OF r, of cmd] obtain s1 xs1 where
    s1: "get_node s cmd = Some (node_set s cmd, s1)" "lru_rep s1 xs1"
      "heap s1 = heap s" "node_set s1 = node_set s" "max_node_count s1 = max_node_count s"
      "fresh s1 = fresh s" "node_count s1 = node_count s" "lru_cache.more s1 = lru_cache.more s"
    by blast
  have h1: "heap s1 a = Some f" by (simp add: s1(3) f)
  let ?g = "\<lambda>f. f\<lparr>access := (access f)\<lparr>last_checked := now w\<rparr>\<rparr>"
  have "key (?g f) = key f" by simp
  from update_node_lru [of s1 xs1 a f ?g, OF s1(2) h1 this] obtain s2 where
    s2: "update_node s1 a ?g = Some s2" "lru_rep s2 xs1" "heap s2 = (heap s1)(a \<mapsto> ?g f)"
      "node_set s2 = node_set s1" "max_node_count s2 = max_node_count s1" "fresh s2 = fresh s1"
      "node_count s2 = node_count s1" "lru_cache.more s2 = lru_cache.more s1"
    by blast
  have "placeholder_block w s cmd really_load = Some (s2, [])"
    using s1(1) a s2(1) by (simp add: placeholder_block_def)
  with s1 s2 show ?thesis by auto
qed

lemma placeholder_block_lru:
  fixes s :: autoload_t
  assumes r: "lru_rep s xs" and cap: "0 < max_node_count s"
  shows "\<exists>s' xs' ev. placeholder_block w s cmd really_load = Some (s', ev) \<and> lru_rep s' xs' \<and>
           executed ev = [] \<and> probes ev = [] \<and>
           max_node_count s' = max_node_count s \<and> lru_cache.more s' = lru_cache.more s"
proof (cases "node_set s cmd")
  case (Some a)
  from lru_rep_lookup(1) [OF r Some] lru_rep_live [OF r] obtain f where "heap s a = Some f"
    by auto
  from placeholder_block_existing [OF r Some this, of w really_load] show ?thesis by auto
next
  case None
  with get_node_rep(1) [OF r None] have g: "get_node s cmd = Some (None, s)" by simp
  let ?ev = "concat (map (\<lambda>b. eviction_trace (the (heap s b)))
                         (rev (drop (max_node_count s - 1) xs)))"
  from create_function_lru [OF r None cap, of "\<lambda>f. f\<lparr>is_placeholder := True\<rparr>" really_load]
  obtain a s2 xs2 where
    s2: "create_function s cmd really_load (\<lambda>f. f\<lparr>is_placeholder := True\<rparr>) = Some (a, s2, ?ev)"
      "lru_rep s2 xs2" "heap s2 a = Some ((autoload_function_ctor cmd)\<lparr>is_placeholder := True\<rparr>)"
      "max_node_count s2 = max_node_count s" "lru_cache.more s2 = lru_cache.more s"
    by auto
  let ?g = "\<lambda>f. f\<lparr>access := (access f)\<lparr>last_checked := now w\<rparr>\<rparr>"
  have "key (?g ((autoload_function_ctor cmd)\<lparr>is_placeholder := True\<rparr>)) =
        key ((autoload_function_ctor cmd)\<lparr>is_placeholder := True\<rparr>)" by simp
  from update_node_lru [of s2 xs2 a _ ?g, OF s2(2,3) this] obtain s3 where
    s3: "update_node s2 a ?g = Some s3" "lru_rep s3 xs2"
      "max_node_count s3 = max_node_count s2" "lru_cache.more s3 = lru_cache.more s2"
    by blast
  have "placeholder_block w s cmd really_load = Some (s3, ?ev)"
    using g s2(1) s3(1) by (simp add: placeholder_block_def)
  with s3 s2 show ?thesis by (auto simp: eviction_traces_quiet)
qed


lemma locate_start:
  fixes s :: autoload_t
  assumes r: "lru_rep s xs"
  shows "\<exists>s1 xs1. get_node s cmd = Some (node_set s cmd, s1) \<and>
           deref s1 (node_set s cmd) = Some (cached_function s cmd) \<and> lru_rep s1 xs1 \<and>
           heap s1 = heap s \<and> node_set s1 = node_set s \<and>
           max_node_count s1 = max_node_count s \<and> fresh s1 = fresh s \<and>
           node_count s1 = node_count s \<and> lru_cache.more s1 = lru_cache.more s \<and>
           cached_function s1 cmd = cached_function s cmd"
proof -
  from get_node_lru [OF r, of cmd] obtain s1 xs1 where
    s1: "get_node s cmd = Some (node_set s cmd, s1)" "lru_rep s1 xs1"
      "heap s1 = heap s" "node_set s1 = node_set s" "max_node_count s1 = max_node_count s"
      "fresh s1 = fresh s" "node_count s1 = node_count s" "lru_cache.more s1 = lru_cache.more s"
    by blast
  have cf: "cached_function s1 cmd = cached_function s cmd"
    by (simp add: cached_function_def s1(3,4) split: option.splits)
  have "deref s1 (node_set s cmd) = Some (cached_function s cmd)"
    using deref_cached [OF s1(2), of cmd] by (simp add: s1(4) cf)
  with s1 cf show ?thesis by auto
qed

lemma locate_cached:
  fixes s :: autoload_t
  assumes r: "lru_rep s xs" and c: "cached_function s cmd = Some f"
    and u: "use_cached w really_load reload (Some f)"
  shows "\<exists>s1 xs1. locate_file_and_maybe_load_it w s cmd really_load reload path_list =
             Some (accessible (access f), s1, []) \<and> lru_rep s1 xs1 \<and>
           heap s1 = heap s \<and> node_set s1 = node_set s \<and>
           max_node_count s1 = max_node_count s \<and> lru_cache.more s1 = lru_cache.more s"
proof -
  from locate_start [OF r, of cmd] obtain s1 xs1 where
    s1: "get_node s cmd = Some (node_set s cmd, s1)"
      "deref s1 (node_set s cmd) = Some (cached_function s cmd)" "lru_rep s1 xs1"
      "heap s1 = heap s" "node_set s1 = node_set s" "max_node_count s1 = max_node_count s"
      "lru_cache.more s1 = lru_cache.more s"
    by blast
  have "locate_file_and_maybe_load_it w s cmd really_load reload path_list =
          Some (accessible (access f), s1, [])"
    using s1(1,2) c u by (simp add: locate_file_and_maybe_load_it_def)
  with s1 show ?thesis by auto
qed

lemma locate_builtin:
  fixes s :: autoload_t
  assumes r: "lru_rep s xs" and u: "\<not> use_cached w really_load reload (cached_function s cmd)"
    and b: "matching_builtin_script (builtin_scripts s) cmd = Some b"
  shows "\<exists>s1 xs1. locate_file_and_maybe_load_it w s cmd really_load reload path_list =
             Some (\<not> really_load, s1, if really_load then [ExecSubshell (def b)] else []) \<and>
           lru_rep s1 xs1 \<and> heap s1 = heap s \<and> node_set s1 = node_set s \<and>
           max_node_count s1 = max_node_count s \<and> lru_cache.more s1 = lru_cache.more s"
proof -
  from locate_start [OF r, of cmd] obtain s1 xs1 where
    s1: "get_node s cmd = Some (node_set s cmd, s1)"
      "deref s1 (node_set s cmd) = Some (cached_function s cmd)" "lru_rep s1 xs1"
      "heap s1 = heap s" "node_set s1 = node_set s" "max_node_count s1 = max_node_count s"
      "lru_cache.more s1 = lru_cache.more s"
    by blast
  have bs: "builtin_scripts s1 = builtin_scripts s" by (rule more_eq_fields(1) [OF s1(7)])
  have "locate_file_and_maybe_load_it w s cmd really_load reload path_list =
          Some (\<not> really_load, s1, if really_load then [ExecSubshell (def b)] else [])"
    using s1(1,2) u b
    by (simp add: locate_file_and_maybe_load_it_def bs run_and_return_def)
  with s1 show ?thesis by auto
qed

lemma executed_probes: "executed (map (\<lambda>next. Probe (g next)) ps) = []"
  by (induction ps) auto

lemma locate_search:
  fixes s :: autoload_t
  assumes r: "lru_rep s xs" and cap: "0 < max_node_count s"
    and u: "\<not> use_cached w really_load reload (cached_function s cmd)"
    and b: "matching_builtin_script (builtin_scripts s) cmd = None"
  shows "\<exists>res s' xs' ev. locate_file_and_maybe_load_it w s cmd really_load reload path_list =
             Some (res, s', ev) \<and> lru_rep s' xs' \<and>
           (res \<longleftrightarrow> (if really_load then executed ev \<noteq> [] else file_on_path w cmd path_list)) \<and>
           max_node_count s' = max_node_count s \<and> lru_cache.more s' = lru_cache.more s"
proof -
  from locate_start [OF r, of cmd] obtain s1 xs1 where
    s1: "get_node s cmd = Some (node_set s cmd, s1)"
      "deref s1 (node_set s cmd) = Some (cached_function s cmd)" "lru_rep s1 xs1"
      "max_node_count s1 = max_node_count s" "lru_cache.more s1 = lru_cache.more s"
      "cached_function s1 cmd = cached_function s cmd"
    by blast
  have bs: "builtin_scripts s1 = builtin_scripts s" by (rule more_eq_fields(1) [OF s1(5)])
  have cap1: "0 < max_node_count s1" using cap by (simp add: s1(4))
  have start: "locate_file_and_maybe_load_it w s cmd really_load reload path_list =
      (case search_path w s1 cmd really_load path_list of
         None \<Rightarrow> None
       | Some (s2, ev, found_file, src, reloaded) \<Rightarrow>
           if \<not> found_file \<and> src = None then
             (case placeholder_block w s2 cmd really_load of
                None \<Rightarrow> None
              | Some (s3, ev') \<Rightarrow>
                  run_and_return really_load s3 (ev @ ev') found_file src reloaded)
           else run_and_return really_load s2 ev found_file src reloaded)"
    using s1(1,2) u b by (simp add: locate_file_and_maybe_load_it_def bs)
  show ?thesis
  proof (cases "file_on_path w cmd path_list")
    case True
    from search_path_found [OF s1(3) cap1 True, of really_load] obtain s' xs' ev acc nx where
      t: "search_path w s1 cmd really_load path_list =
         Some (s', ev, True,
               (if need_to_load_function really_load (cached_function s1 cmd) acc
                then Some (''. '' @ escape_string w (candidate_path nx cmd)) else None),
               need_to_load_function really_load (cached_function s1 cmd) acc)"
       "lru_rep s' xs'" "max_node_count s' = max_node_count s1"
       "lru_cache.more s' = lru_cache.more s1" "executed ev = []"
      by blast
    let ?need = "need_to_load_function really_load (cached_function s1 cmd) acc"
    have nr: "?need \<Longrightarrow> really_load" by (simp add: need_to_load_function_def)
    let ?ev = "ev @ (if ?need then [ExecSubshell (''. '' @ escape_string w (candidate_path nx cmd))]
                     else [])"
    have "locate_file_and_maybe_load_it w s cmd really_load reload path_list =
            Some (if really_load then ?need else True, s', ?ev)"
      unfolding start t(1) using nr by (auto simp: run_and_return_def)
    moreover have "(if really_load then ?need else True) \<longleftrightarrow>
        (if really_load then executed ?ev \<noteq> [] else file_on_path w cmd path_list)"
      using True t(5) by (simp add: executed_append)
    ultimately show ?thesis using t(2,3,4) s1(4,5) by auto
  next
    case False
    note sp = search_path_not_found [OF False, of s1 really_load]
    from placeholder_block_lru [OF s1(3) cap1, of w cmd really_load] obtain s3 xs3 ev' where
      p: "placeholder_block w s1 cmd really_load = Some (s3, ev')" "lru_rep s3 xs3"
        "executed ev' = []" "max_node_count s3 = max_node_count s1"
        "lru_cache.more s3 = lru_cache.more s1"
      by blast
    let ?ev = "map (\<lambda>next. Probe (candidate_path next cmd)) path_list @ ev'"
    have "locate_file_and_maybe_load_it w s cmd really_load reload path_list =
            Some (False, s3, ?ev)"
      unfolding start sp using p(1) by (simp add: run_and_return_def)
    moreover have "executed ?ev = []" by (simp add: executed_append executed_probes p(3))
    ultimately show ?thesis using False p(2,4,5) s1(4,5) by auto
  qed
qed

lemma locate_not_found_existing:
  fixes s :: autoload_t
  assumes r: "lru_rep s xs" and a: "node_set s cmd = Some a" and f: "heap s a = Some f"
    and u: "\<not> use_cached w really_load reload (Some f)"
    and b: "matching_builtin_script (builtin_scripts s) cmd = None"
    and nf: "\<not> file_on_path w cmd path_list"
  shows "\<exists>s' xs'. locate_file_and_maybe_load_it w s cmd really_load reload path_list =
             Some (False, s', map (\<lambda>next. Probe (candidate_path next cmd)) path_list) \<and>
           lru_rep s' xs' \<and>
           heap s' = (heap s)(a \<mapsto> f\<lparr>access := (access f)\<lparr>last_checked := now w\<rparr>\<rparr>) \<and>
           node_set s' = node_set s \<and> fresh s' = fresh s \<and> node_count s' = node_count s \<and>
           max_node_count s' = max_node_count s \<and> lru_cache.more s' = lru_cache.more s"
proof -
  have c: "cached_function s cmd = Some f" by (simp add: cached_function_def a f)
  from locate_start [OF r, of cmd] obtain s1 xs1 where
    s1: "get_node s cmd = Some (node_set s cmd, s1)"
      "deref s1 (node_set s cmd) = Some (cached_function s cmd)" "lru_rep s1 xs1"
      "heap s1 = heap s" "node_set s1 = node_set s" "max_node_count s1 = max_node_count s"
      "fresh s1 = fresh s" "node_count s1 = node_count s" "lru_cache.more s1 = lru_cache.more s"
    by blast
  have bs: "builtin_scripts s1 = builtin_scripts s" by (rule more_eq_fields(1) [OF s1(9)])
  note sp = search_path_not_found [OF nf, of s1 really_load]
  have a1: "node_set s1 cmd = Some a" "heap s1 a = Some f" by (simp_all add: s1(4,5) a f)
  from placeholder_block_existing [OF s1(3) a1, of w really_load] obtain s3 xs3 where
    p: "placeholder_block w s1 cmd really_load = Some (s3, [])" "lru_rep s3 xs3"
      "heap s3 = (heap s1)(a \<mapsto> f\<lparr>access := (access f)\<lparr>last_checked := now w\<rparr>\<rparr>)"
      "node_set s3 = node_set s1" "fresh s3 = fresh s1" "node_count s3 = node_count s1"
      "max_node_count s3 = max_node_count s1" "lru_cache.more s3 = lru_cache.more s1"
    by blast
  have "locate_file_and_maybe_load_it w s cmd really_load reload path_list =
          Some (False, s3, map (\<lambda>next. Probe (candidate_path next cmd)) path_list)"
    using s1(1,2) u b p(1) unfolding c
    by (simp add: locate_file_and_maybe_load_it_def bs sp run_and_return_def)
  with p s1 show ?thesis by auto
qed


section \<open>Example states\<close>

lemma lru_rep_autoload_ctor: "lru_rep (autoload_ctor n v tbl) []"
  by (simp add: lru_rep_def autoload_ctor_def lru_cache_impl_t_def lru_cache.extend_def mouth_def)

lemma autoload_ctor_fields:
  "max_node_count (autoload_ctor n v tbl) = n"
  "builtin_scripts (autoload_ctor n v tbl) = tbl"
  "node_set (autoload_ctor n v tbl) = Map.empty"
  "heap (autoload_ctor n v tbl) = Map.empty"
  "path (autoload_ctor n v tbl) = []"
  "is_loading_set (autoload_ctor n v tbl) = {}"
  by (simp_all add: autoload_ctor_def lru_cache_impl_t_def lru_cache.extend_def
        autoload_t.fields_def)

lemma lru_rep_demo_placeholder: "lru_rep demo_placeholder [1]"
  by (auto simp: lru_rep_def demo_placeholder_def mouth_def split: if_splits)

lemma lru_rep_demo_loading: "lru_rep demo_loading []"
  using lru_rep_autoload_ctor [of 4 "''fish_function_path''" "[]"]
  by (simp add: lru_rep_def demo_loading_def demo_autoload_def)

section \<open>Builtin precedence\<close>

text \<open>
  Claim C9. Let the builtin table be sorted by name and let \<open>b\<close> be its first entry named
  \<open>cmd\<close>. Then a resolution of \<open>cmd\<close> on a well-formed state probes no file, whatever the
  file system holds: its trace is empty when the cached function is used, and otherwise
  it consists of running the script body of \<open>b\<close> when really loading and is empty when
  only probing. When no function is cached for \<open>cmd\<close> the result is \<open>\<not> really_load\<close>.
\<close>

theorem builtin_precedence:
  fixes s :: autoload_t
  assumes "lru_rep s xs" and "sorted (map name (builtin_scripts s))"
    and "find (\<lambda>b. name b = cmd) (builtin_scripts s) = Some b"
  shows "\<exists>res s' ev. locate_file_and_maybe_load_it w s cmd really_load reload path_list =
           Some (res, s', ev) \<and> probes ev = [] \<and>
         ev = (if use_cached w really_load reload (cached_function s cmd) then []
               else if really_load then [ExecSubshell (def b)] else []) \<and>
         (cached_function s cmd = None \<longrightarrow> res = (\<not> really_load))"
proof (cases "use_cached w really_load reload (cached_function s cmd)")
  case True
  then obtain f where f: "cached_function s cmd = Some f"
    by (cases "cached_function s cmd") (auto simp: use_cached_def)
  from locate_cached [OF assms(1) f, of w really_load reload path_list] True f
  show ?thesis by auto
next
  case False
  have "matching_builtin_script (builtin_scripts s) cmd = Some b"
    using matching_builtin_script_sorted [OF assms(2), of cmd] assms(3) by simp
  from locate_builtin [OF assms(1) False this, of path_list] False
  show ?thesis by auto
qed

theorem builtin_precedence_witness:
  "lru_rep demo_with_builtins [] \<and> sorted (map name (builtin_scripts demo_with_builtins)) \<and>
   find (\<lambda>b. name b = ''foo'') (builtin_scripts demo_with_builtins) =
     Some \<lparr>name = ''foo'', def = ''function foo; end''\<rparr> \<and>
   file_on_path demo_world ''foo'' [''/d''] \<and>
   (\<exists>s'. locate_file_and_maybe_load_it demo_world demo_with_builtins ''foo'' True False [''/d''] =
           Some (False, s', [ExecSubshell ''function foo; end'']))"
proof -
  have r: "lru_rep demo_with_builtins []"
    unfolding demo_with_builtins_def by (rule lru_rep_autoload_ctor)
  have s: "sorted (map name (builtin_scripts demo_with_builtins))"
    by (simp add: demo_with_builtins_def autoload_ctor_fields demo_builtins_def)
  have f: "find (\<lambda>b. name b = ''foo'') (builtin_scripts demo_with_builtins) =
     Some \<lparr>name = ''foo'', def = ''function foo; end''\<rparr>"
    by (simp add: demo_with_builtins_def autoload_ctor_fields demo_builtins_def)
  have c: "cached_function demo_with_builtins ''foo'' = None"
    by (simp add: cached_function_def demo_with_builtins_def autoload_ctor_fields)
  have p: "file_on_path demo_world ''foo'' [''/d'']"
    by (simp add: file_on_path_def candidate_path_def access_file_def demo_world_def)
  from builtin_precedence [OF r s f, of demo_world True False "[''/d'']"] r s f p
  show ?thesis by (auto simp: c use_cached_def)
qed


section \<open>A failed search with an entry in the cache\<close>

text \<open>
  Claim C10. On a well-formed state let the cache hold the function \<open>f\<close> for \<open>cmd\<close> at the
  node \<open>a\<close>, let the cached function not be usable, and let the resolution find neither a
  builtin nor an accessible file. Then the resolution answers false after probing each
  directory of the path list once; no node is made (the allocation counter, the counter
  of nodes and the index stay as they are); the node \<open>a\<close> still holds the function for
  \<open>cmd\<close>, changed only in \<^verbatim>\<open>access.last_checked\<close>, which is now the current time; and no
  other node changes.
\<close>

theorem not_found_refreshes_existing_entry:
  fixes s :: autoload_t
  assumes "lru_rep s xs" and "node_set s cmd = Some a" and "heap s a = Some f"
    and "\<not> use_cached w really_load reload (Some f)"
    and "matching_builtin_script (builtin_scripts s) cmd = None"
    and "\<not> file_on_path w cmd path_list"
  shows "\<exists>s' g. locate_file_and_maybe_load_it w s cmd really_load reload path_list =
             Some (False, s', map (\<lambda>next. Probe (candidate_path next cmd)) path_list) \<and>
           fresh s' = fresh s \<and> node_count s' = node_count s \<and> node_set s' = node_set s \<and>
           heap s' = (heap s)(a \<mapsto> g) \<and>
           g = f\<lparr>access := (access f)\<lparr>last_checked := now w\<rparr>\<rparr> \<and>
           last_checked (access g) = now w \<and>
           is_placeholder g = is_placeholder f \<and> is_loaded g = is_loaded f \<and>
           accessible (access g) = accessible (access f) \<and>
           mod_time (access g) = mod_time (access f) \<and> key g = key f"
proof -
  from locate_not_found_existing [OF assms, of ] obtain s' where
    "locate_file_and_maybe_load_it w s cmd really_load reload path_list =
       Some (False, s', map (\<lambda>next. Probe (candidate_path next cmd)) path_list)"
    "heap s' = (heap s)(a \<mapsto> f\<lparr>access := (access f)\<lparr>last_checked := now w\<rparr>\<rparr>)"
    "node_set s' = node_set s" "fresh s' = fresh s" "node_count s' = node_count s"
    by blast
  then show ?thesis by simp
qed

theorem not_found_refreshes_existing_entry_witness:
  "lru_rep demo_placeholder [1] \<and> node_set demo_placeholder ''zz'' = Some 1 \<and>
   heap demo_placeholder 1 =
     Some \<lparr>key = ''zz'',
           access = \<lparr>mod_time = 0, last_checked = 990, accessible = False, stale = False,
                     error = 0\<rparr>,
           is_loaded = False, is_placeholder = True\<rparr> \<and>
   \<not> use_cached demo_world True False (heap demo_placeholder 1) \<and>
   matching_builtin_script (builtin_scripts demo_placeholder) ''zz'' = None \<and>
   \<not> file_on_path demo_world ''zz'' [''/d''] \<and>
   (\<exists>s'. locate_file_and_maybe_load_it demo_world demo_placeholder ''zz'' True False [''/d''] =
            Some (False, s', [Probe ''/d/zz.fish'']) \<and>
          fresh s' = 2 \<and> node_count s' = 1 \<and> node_set s' = [''zz'' \<mapsto> 1] \<and>
          heap s' 1 =
            Some \<lparr>key = ''zz'',
                  access = \<lparr>mod_time = 0, last_checked = 1000, accessible = False,
                            stale = False, error = 0\<rparr>,
                  is_loaded = False, is_placeholder = True\<rparr>)"
proof -
  let ?f = "\<lparr>key = ''zz'',
           access = \<lparr>mod_time = 0, last_checked = 990, accessible = False, stale = False,
                     error = 0\<rparr>,
           is_loaded = False, is_placeholder = True\<rparr>"
  have a: "node_set demo_placeholder ''zz'' = Some 1" by (simp add: demo_placeholder_def)
  have f: "heap demo_placeholder 1 = Some ?f" by (simp add: demo_placeholder_def)
  have u: "\<not> use_cached demo_world True False (Some ?f)" by (simp add: use_cached_def)
  have b: "matching_builtin_script (builtin_scripts demo_placeholder) ''zz'' = None"
    by (simp add: demo_placeholder_def matching_builtin_script_def)
  have p: "\<not> file_on_path demo_world ''zz'' [''/d'']"
    by (simp add: file_on_path_def candidate_path_def access_file_def demo_world_def)
  from not_found_refreshes_existing_entry [OF lru_rep_demo_placeholder a f u b p]
    lru_rep_demo_placeholder a f u b p
  show ?thesis
    by (auto simp: candidate_path_def demo_world_def demo_placeholder_def)
qed


section \<open>The result of the resolution core\<close>

lemmas model_defs =
  load_def can_load_def unload_def unload_all_def locate_file_and_maybe_load_it_def
  get_node_def promote_node_def deref_def use_cached_def matching_builtin_script_def
  candidate_path_def access_file_def found_file_block_def need_to_load_function_def
  prepare_reload_def create_function_def new_autoload_function_def update_node_def
  add_node_def add_node_without_eviction_def evict_while_above.simps evict_last_node_def
  evict_node_def evict_node_key_def evict_all_nodes_def node_was_evicted_def
  placeholder_block_def run_and_return_def autoload_ctor_def lru_cache_impl_t_def
  autoload_function_ctor_def mouth_def Let_def kAutoloadStalenessInterval_def
  lru_cache.extend_def autoload_t.fields_def result_of_def trace_of_def state_of_def
  and_then_def demo_world_def demo_autoload_def file_on_path_def cached_function_def
  lru_keys_def lru_nodes_def key_at_def

text \<open>
  Claim C4 fails when the cached function is used. With \<^verbatim>\<open>foo.fish\<close> in \<^verbatim>\<open>/d\<close>, a load of
  \<^verbatim>\<open>foo\<close> followed by a resolution with \<open>really_load\<close> answers true although the second
  call runs no script; and a probe with the path list \<^verbatim>\<open>/d\<close> followed by a probe
  with the path list \<^verbatim>\<open>/e\<close> answers true although there is neither a builtin nor a file
  \<^verbatim>\<open>/e/foo.fish\<close>.
\<close>

theorem locate_result_counterexample:
  "result_of (and_then (load demo_world (demo_autoload 4) ''/d'' ''foo'' False)
       (\<lambda>s. locate_file_and_maybe_load_it demo_world s ''foo'' True False [''/d''])) = Some True \<and>
   trace_of (and_then (load demo_world (demo_autoload 4) ''/d'' ''foo'' False)
       (\<lambda>s. locate_file_and_maybe_load_it demo_world s ''foo'' True False [''/d''])) = Some [] \<and>
   result_of (and_then (can_load demo_world (demo_autoload 4) ''foo'' (Some ''/d''))
       (\<lambda>s. locate_file_and_maybe_load_it demo_world s ''foo'' False False [''/e''])) = Some True \<and>
   \<not> file_on_path demo_world ''foo'' [''/e''] \<and>
   matching_builtin_script (builtin_scripts (demo_autoload 4)) ''foo'' = None"
  by (simp add: model_defs)

text \<open>
  Claim C4 as amended. On a well-formed state with room for at least one node the
  resolution returns, and: when the cached function is usable, the result is its recorded
  accessibility and nothing is probed or run; otherwise, when \<open>really_load\<close> is false, the
  result is true exactly when a builtin matches or an accessible file is on the path
  list; and when \<open>really_load\<close> is true and no builtin matches, the result is true exactly
  when a script is run in this call.
\<close>

theorem locate_result:
  fixes s :: autoload_t
  assumes "lru_rep s xs" and "0 < max_node_count s"
  shows "\<exists>res s' ev. locate_file_and_maybe_load_it w s cmd really_load reload path_list =
           Some (res, s', ev) \<and>
         (if use_cached w really_load reload (cached_function s cmd)
          then ev = [] \<and>
               map_option (\<lambda>f. accessible (access f)) (cached_function s cmd) = Some res
          else if really_load
          then matching_builtin_script (builtin_scripts s) cmd = None \<longrightarrow>
               (res \<longleftrightarrow> executed ev \<noteq> [])
          else res \<longleftrightarrow> matching_builtin_script (builtin_scripts s) cmd \<noteq> None \<or>
                     file_on_path w cmd path_list)"
proof (cases "use_cached w really_load reload (cached_function s cmd)")
  case True
  then obtain f where f: "cached_function s cmd = Some f"
    by (cases "cached_function s cmd") (auto simp: use_cached_def)
  from locate_cached [OF assms(1) f, of w really_load reload path_list] True f
  show ?thesis by auto
next
  case False
  show ?thesis
  proof (cases "matching_builtin_script (builtin_scripts s) cmd")
    case (Some b)
    from locate_builtin [OF assms(1) False Some, of path_list] obtain s1 where
      "locate_file_and_maybe_load_it w s cmd really_load reload path_list =
         Some (\<not> really_load, s1, if really_load then [ExecSubshell (def b)] else [])"
      by blast
    with False Some show ?thesis by (cases really_load) auto
  next
    case None
    from locate_search [OF assms False None, of path_list] obtain res s' ev where
      "locate_file_and_maybe_load_it w s cmd really_load reload path_list = Some (res, s', ev)"
      "res \<longleftrightarrow> (if really_load then executed ev \<noteq> [] else file_on_path w cmd path_list)"
      by blast
    with False None show ?thesis by (cases really_load) auto
  qed
qed

theorem locate_result_witness:
  "lru_rep (demo_autoload 4) [] \<and> 0 < max_node_count (demo_autoload 4) \<and>
   \<not> use_cached demo_world True False (cached_function (demo_autoload 4) ''foo'') \<and>
   matching_builtin_script (builtin_scripts (demo_autoload 4)) ''foo'' = None \<and>
   (\<exists>res s' ev. locate_file_and_maybe_load_it demo_world (demo_autoload 4) ''foo'' True False
        [''/d''] = Some (res, s', ev) \<and> (res \<longleftrightarrow> executed ev \<noteq> []))"
proof -
  have r: "lru_rep (demo_autoload 4) []"
    unfolding demo_autoload_def by (rule lru_rep_autoload_ctor)
  have m: "0 < max_node_count (demo_autoload 4)"
    by (simp add: demo_autoload_def autoload_ctor_fields)
  have u: "\<not> use_cached demo_world True False (cached_function (demo_autoload 4) ''foo'')"
    by (simp add: use_cached_def cached_function_def demo_autoload_def autoload_ctor_fields)
  have b: "matching_builtin_script (builtin_scripts (demo_autoload 4)) ''foo'' = None"
    by (simp add: demo_autoload_def autoload_ctor_fields matching_builtin_script_def)
  from locate_result [OF r m, of demo_world "''foo''" True False "[''/d'']"] r m u b
  show ?thesis by auto
qed

section \<open>The guard against circular loading\<close>

lemma lru_rep_path_update: "lru_rep (s\<lparr>path := p\<rparr>) xs = lru_rep s xs"
  by (simp add: lru_rep_def)

lemma lru_rep_empty_index: "lru_rep s [] \<Longrightarrow> node_set s = Map.empty"
  by (rule ext) (auto simp: lru_rep_def)

text \<open>
  Claim C8 fails when the search variable is empty: the test for an empty variable comes
  before the guard, and then \<^verbatim>\<open>load\<close> answers 0 without a diagnostic although the command is
  being loaded.
\<close>

theorem load_circular_guard_counterexample:
  "''foo'' \<in> is_loading_set demo_loading \<and>
   result_of (load demo_world demo_loading [] ''foo'' False) = Some 0 \<and>
   trace_of (load demo_world demo_loading [] ''foo'' False) = Some []"
  by (simp add: load_def result_of_def trace_of_def demo_loading_def demo_world_def)

text \<open>
  Claim C8 as amended. Let signals not be blocked, let the search variable be non-empty and
  let \<open>cmd\<close> be in the set of commands being loaded. Then \<^verbatim>\<open>load\<close> on a well-formed state
  answers 1 and ends with the diagnostic; it probes no file, runs no script, makes no
  node and leaves the set of commands being loaded as it is. When the search variable has
  its recorded value the state is unchanged and the diagnostic is the whole trace;
  when it has changed, the cache was emptied before the guard, and the index is empty.
\<close>

theorem load_circular_guard:
  fixes s :: autoload_t
  assumes "lru_rep s xs" and "\<not> signal_is_blocked w" and "path_var \<noteq> []"
    and "cmd \<in> is_loading_set s"
  shows "\<exists>s' ev. load w s path_var cmd reload = Some (1, s', ev @ [Debug cmd]) \<and>
           probes ev = [] \<and> executed ev = [] \<and> fresh s' = fresh s \<and>
           is_loading_set s' = is_loading_set s \<and>
           node_set s' = (if path_var = path s then node_set s else Map.empty) \<and>
           (path_var = path s \<longrightarrow> s' = s \<and> ev = [])"
proof (cases "path_var = path s")
  case True
  with assms(2-4) have "load w s path_var cmd reload = Some (1, s, [] @ [Debug cmd])"
    by (simp add: load_def)
  with True show ?thesis by (intro exI [of _ s] exI [of _ "[]"]) simp
next
  case False
  let ?s = "s\<lparr>path := path_var\<rparr>"
  let ?ev = "concat (map (\<lambda>a. eviction_trace (the (heap ?s a))) (rev (drop 0 xs)))"
  have r: "lru_rep ?s xs" using assms(1) by (simp add: lru_rep_path_update)
  from evict_while_above_rep [OF r, of 0] obtain s1 where
    s1: "evict_while_above 0 ?s = Some (s1, ?ev)" "lru_rep s1 (take 0 xs)"
      "fresh s1 = fresh ?s" "lru_cache.more s1 = lru_cache.more ?s"
    by blast
  have il: "is_loading_set s1 = is_loading_set s"
    using more_eq_fields(3) [OF s1(4)] by simp
  have ns: "node_set s1 = Map.empty" using s1(2) by (simp add: lru_rep_empty_index)
  have "load w s path_var cmd reload = Some (1, s1, ?ev @ [Debug cmd])"
    using assms(2-4) False s1(1) il by (simp add: load_def evict_all_nodes_def)
  moreover have "probes ?ev = []" "executed ?ev = []" by (rule eviction_traces_quiet)+
  ultimately show ?thesis using False s1(3) il ns
    by (intro exI [of _ s1] exI [of _ ?ev]) simp
qed

theorem load_circular_guard_witness:
  "lru_rep demo_loading [] \<and> \<not> signal_is_blocked demo_world \<and> ''/d'' \<noteq> [] \<and>
   ''foo'' \<in> is_loading_set demo_loading \<and> ''/d'' = path demo_loading \<and>
   load demo_world demo_loading ''/d'' ''foo'' False = Some (1, demo_loading, [Debug ''foo''])"
proof -
  have b: "\<not> signal_is_blocked demo_world" by (simp add: demo_world_def)
  have n: "''/d'' \<noteq> []" by simp
  have i: "''foo'' \<in> is_loading_set demo_loading" by (simp add: demo_loading_def)
  have p: "''/d'' = path demo_loading" by (simp add: demo_loading_def)
  from load_circular_guard [OF lru_rep_demo_loading b n i, of False] lru_rep_demo_loading b i p
  show ?thesis by auto
qed


section \<open>Where the code departs from its own comments\<close>

text \<open>
  Claim C1. The hook tests \<open>\<not> is_loaded\<close> where its comment says "if it was loaded". After
  \<^verbatim>\<open>foo\<close> has been loaded from \<^verbatim>\<open>/d/foo.fish\<close>, unloading it calls the hook but not
  \<^verbatim>\<open>command_removed\<close>; after a failed load of \<^verbatim>\<open>zz\<close> has left a placeholder that was never
  loaded, unloading it calls \<^verbatim>\<open>command_removed\<close>.
\<close>

theorem eviction_hook_test_inverted:
  "map_option is_loaded
     (Option.bind (state_of (load demo_world (demo_autoload 4) ''/d'' ''foo'' False))
        (\<lambda>s. cached_function s ''foo'')) = Some True \<and>
   trace_of (and_then (load demo_world (demo_autoload 4) ''/d'' ''foo'' False)
       (\<lambda>s. unload s ''foo'')) = Some [Evicted ''foo''] \<and>
   map_option is_loaded
     (Option.bind (state_of (load demo_world (demo_autoload 4) ''/d'' ''zz'' False))
        (\<lambda>s. cached_function s ''zz'')) = Some False \<and>
   trace_of (and_then (load demo_world (demo_autoload 4) ''/d'' ''zz'' False)
       (\<lambda>s. unload s ''zz'')) = Some [Evicted ''zz'', CommandRemoved ''zz'']"
  by (simp add: model_defs)

text \<open>
  Claim C2. \<^verbatim>\<open>add_node_without_eviction\<close> ends with the same eviction loop as \<^verbatim>\<open>add_node\<close>.
  On a cache of capacity 1 that holds \<^verbatim>\<open>a\<close>, adding \<^verbatim>\<open>b\<close> without eviction calls the hook
  for \<^verbatim>\<open>a\<close> and removes \<^verbatim>\<open>a\<close> from the index.
\<close>

theorem add_node_without_eviction_evicts:
  "(case run_ops (lru_cache_impl_t 1) [Add ''a''] of
      None \<Rightarrow> False
    | Some (c, ev) \<Rightarrow>
        ev = [] \<and> lru_keys c = [''a''] \<and> node_set c ''a'' \<noteq> None \<and>
        (case cache_step c (AddWithoutEviction ''b'') of
           None \<Rightarrow> False
         | Some (c', ev') \<Rightarrow>
             evicted_keys ev' = [''a''] \<and> lru_keys c' = [''b''] \<and> node_set c' ''a'' = None))"
  by (simp add: model_defs)

text \<open>
  Claim C3. The test for a usable cached function asks for \<open>is_loaded\<close> whenever
  \<open>really_load\<close> is set and never reads \<open>is_placeholder\<close>, so a placeholder is never used by
  \<^verbatim>\<open>load\<close>. A first load of the unknown command \<^verbatim>\<open>zz\<close> probes \<^verbatim>\<open>/d/zz.fish\<close> and leaves a
  placeholder; a second load at the same time probes the file again.
\<close>

theorem placeholder_not_used_by_load:
  "trace_of (load demo_world (demo_autoload 4) ''/d'' ''zz'' False) = Some [Probe ''/d/zz.fish''] \<and>
   map_option is_placeholder
     (Option.bind (state_of (load demo_world (demo_autoload 4) ''/d'' ''zz'' False))
        (\<lambda>s. cached_function s ''zz'')) = Some True \<and>
   trace_of (and_then (load demo_world (demo_autoload 4) ''/d'' ''zz'' False)
       (\<lambda>s. load demo_world s ''/d'' ''zz'' False)) = Some [Probe ''/d/zz.fish'']"
  by (simp add: model_defs)

text \<open>
  Claim C5. When the reload condition is false the block of the accessible candidate can
  still reach \<^verbatim>\<open>command_removed\<close>, through the eviction loop of
  \<^verbatim>\<open>add_node_without_eviction\<close> and the inverted test of the hook. On a manager of capacity
  1 whose cache holds the placeholder of \<^verbatim>\<open>zz\<close>, probing \<^verbatim>\<open>foo\<close> (found in \<^verbatim>\<open>/d\<close>, not to
  be loaded) evicts \<^verbatim>\<open>zz\<close> and unregisters it.
\<close>

theorem probe_unregisters_evicted_command:
  "\<not> need_to_load_function False None (access_file demo_world ''/d/foo.fish'') \<and>
   trace_of (and_then (can_load demo_world (demo_autoload 1) ''zz'' (Some ''/d''))
       (\<lambda>s. can_load demo_world s ''foo'' (Some ''/d''))) =
     Some [Probe ''/d/foo.fish'', Evicted ''zz'', CommandRemoved ''zz'']"
  by (simp add: model_defs)


section \<open>Structure and capacity of the cache\<close>

text \<open>
  Claim C6. Start from a new cache of capacity \<open>n\<close> and perform any sequence of the public
  mutating operations (\<^verbatim>\<open>add_node\<close>, \<^verbatim>\<open>add_node_without_eviction\<close>, \<^verbatim>\<open>get_node\<close>,
  \<^verbatim>\<open>evict_node\<close> by key, \<^verbatim>\<open>evict_all_nodes\<close>). No assertion fails, and afterwards there
  is a list \<open>xs\<close> of nodes such that: the counter equals the number of keys in the index;
  the nodes of the index are exactly the nodes of \<open>xs\<close>, each once; the sentinel is not
  among them; following \<^verbatim>\<open>next\<close> from the sentinel visits \<open>xs\<close> and returns to the
  sentinel, and following \<^verbatim>\<open>prev\<close> visits it in reverse; and the counter is at most the
  capacity.
\<close>

theorem cache_structure_and_capacity:
  "\<exists>c ev xs. run_ops (lru_cache_impl_t n) ops = Some (c, ev) \<and>
     node_count c = card (dom (node_set c)) \<and>
     ran (node_set c) = set xs \<and> distinct xs \<and> length xs = node_count c \<and>
     mouth \<notin> set xs \<and>
     path_via (nxt c) mouth xs mouth \<and> path_via (prv c) mouth (rev xs) mouth \<and>
     node_count c \<le> max_node_count c \<and> max_node_count c = n"
proof -
  from run_ops_refines [OF lru_rep_init, of n ops] obtain c ev xs where
    c: "run_ops (lru_cache_impl_t n) ops = Some (c, ev)" "lru_rep c xs"
      "max_node_count c = max_node_count (lru_cache_impl_t n)"
      "map (key_at c) xs = fst (abs_run (max_node_count (lru_cache_impl_t n))
         (map (key_at (lru_cache_impl_t n)) []) ops)"
    by blast
  have mx: "max_node_count c = n" using c(3) by (simp add: lru_cache_impl_t_def)
  have "length (map (key_at c) xs) \<le> n"
    unfolding c(4) by (simp add: lru_cache_impl_t_def abs_run_length)
  then have le: "length xs \<le> n" by simp
  from c(2) have s: "path_via (nxt c) mouth xs mouth" "path_via (prv c) mouth (rev xs) mouth"
    "distinct xs" "mouth \<notin> set xs" "node_count c = length xs"
    by (simp_all add: lru_rep_def)
  from c(1) s le mx lru_rep_index [OF c(2)] show ?thesis by auto
qed

theorem cache_structure_and_capacity_witness:
  "\<exists>c ev xs. run_ops (lru_cache_impl_t 1) [Add ''a'', Get ''a'', AddWithoutEviction ''b''] =
       Some (c, ev) \<and>
     node_count c = card (dom (node_set c)) \<and>
     ran (node_set c) = set xs \<and> distinct xs \<and> length xs = node_count c \<and>
     mouth \<notin> set xs \<and>
     path_via (nxt c) mouth xs mouth \<and> path_via (prv c) mouth (rev xs) mouth \<and>
     node_count c \<le> max_node_count c \<and> max_node_count c = 1"
  by (rule cache_structure_and_capacity)

section \<open>Least-recently-used order\<close>

text \<open>
  Claim C7. On a new cache of capacity \<open>n\<close>, any sequence of insertions (\<^verbatim>\<open>add_node\<close> of a
  new node) and lookups (\<^verbatim>\<open>get_node\<close>) leaves the keys in the order that strict
  least-recently-used replacement prescribes and calls the eviction hook for the keys
  that it prescribes, in its order: a lookup of a present key moves it to the front, and
  an eviction for capacity takes the key at the back. In particular, when \<open>n + 1\<close>
  pairwise distinct keys are inserted, the first \<open>n\<close> insertions evict nothing and the
  last one evicts the first key and nothing else, leaving the other keys, the last one
  inserted in front.
\<close>

theorem strict_lru_order:
  "(\<exists>c ev. run_ops (lru_cache_impl_t n) (map as_op us) = Some (c, ev) \<and>
      lru_keys c = fst (lru_spec_run n [] us) \<and>
      evicted_keys ev = snd (lru_spec_run n [] us)) \<and>
   (distinct ks \<and> length ks = Suc n \<longrightarrow>
      (\<exists>c1 ev1 c2 ev2.
         run_ops (lru_cache_impl_t n) (map Add (butlast ks)) = Some (c1, ev1) \<and>
         evicted_keys ev1 = [] \<and> lru_keys c1 = rev (butlast ks) \<and>
         cache_step c1 (Add (last ks)) = Some (c2, ev2) \<and>
         evicted_keys ev2 = [hd ks] \<and> lru_keys c2 = rev (tl ks)))"
proof (intro conjI impI)
  have mx: "max_node_count (lru_cache_impl_t n) = n" by (simp add: lru_cache_impl_t_def)
  from run_ops_refines [OF lru_rep_init, of n "map as_op us"] obtain c ev xs where
    c: "run_ops (lru_cache_impl_t n) (map as_op us) = Some (c, ev)" "lru_rep c xs"
      "map (key_at c) xs = fst (abs_run n [] (map as_op us))"
      "evicted_keys ev = snd (abs_run n [] (map as_op us))"
    unfolding mx by auto
  then show "\<exists>c ev. run_ops (lru_cache_impl_t n) (map as_op us) = Some (c, ev) \<and>
      lru_keys c = fst (lru_spec_run n [] us) \<and>
      evicted_keys ev = snd (lru_spec_run n [] us)"
    by (simp add: lru_rep_keys abs_run_as_op)
next
  assume a: "distinct ks \<and> length ks = Suc n"
  then obtain ys y where ks: "ks = ys @ [y]" by (cases ks rule: rev_cases) auto
  with a have d: "distinct ys" "y \<notin> set ys" "length ys = n" by auto
  have mx: "max_node_count (lru_cache_impl_t n) = n" by (simp add: lru_cache_impl_t_def)
  have ar: "abs_run n [] (map Add ys) = (rev ys, [])"
    using abs_run_fresh_inserts [of ys "[]" n] d by simp
  from run_ops_refines [OF lru_rep_init, of n "map Add ys"] obtain c1 ev1 xs1 where
    c1: "run_ops (lru_cache_impl_t n) (map Add ys) = Some (c1, ev1)" "lru_rep c1 xs1"
      "max_node_count c1 = n" "map (key_at c1) xs1 = rev ys" "evicted_keys ev1 = []"
    unfolding mx by (auto simp: ar)
  from cache_step_refines [OF c1(2), of "Add y"] obtain c2 ev2 xs2 where
    c2: "cache_step c1 (Add y) = Some (c2, ev2)" "lru_rep c2 xs2"
      "map (key_at c2) xs2 = fst (abs_step n (rev ys) (Add y))"
      "evicted_keys ev2 = snd (abs_step n (rev ys) (Add y))"
    unfolding c1(3,4) by auto
  have tk: "take n (y # rev ys) = rev (tl ks)"
  proof (cases ys)
    case Nil
    with d ks show ?thesis by simp
  next
    case (Cons z zs)
    with d ks show ?thesis by (simp add: take_Cons')
  qed
  have dr: "rev (drop n (y # rev ys)) = [hd ks]"
  proof (cases ys)
    case Nil
    with d ks show ?thesis by simp
  next
    case (Cons z zs)
    with d ks show ?thesis by (simp add: drop_Cons')
  qed
  show "\<exists>c1 ev1 c2 ev2.
         run_ops (lru_cache_impl_t n) (map Add (butlast ks)) = Some (c1, ev1) \<and>
         evicted_keys ev1 = [] \<and> lru_keys c1 = rev (butlast ks) \<and>
         cache_step c1 (Add (last ks)) = Some (c2, ev2) \<and>
         evicted_keys ev2 = [hd ks] \<and> lru_keys c2 = rev (tl ks)"
    using c1 c2 d tk dr
    by (auto simp: ks lru_rep_keys)
qed

theorem strict_lru_order_witness:
  "distinct [''a'', ''b'', ''c''] \<and> length [''a'', ''b'', ''c''] = Suc 2 \<and>
   (\<exists>c1 ev1 c2 ev2.
      run_ops (lru_cache_impl_t 2) [Add ''a'', Add ''b''] = Some (c1, ev1) \<and>
      evicted_keys ev1 = [] \<and> lru_keys c1 = [''b'', ''a''] \<and>
      cache_step c1 (Add ''c'') = Some (c2, ev2) \<and>
      evicted_keys ev2 = [''a''] \<and> lru_keys c2 = [''c'', ''b''])"
  using strict_lru_order [of 2 "[]" "[''a'', ''b'', ''c'']"] by simp


end
